theory Spec2Isabelle
  imports Complex_Main
begin

section \<open>Data model\<close>

text \<open>
  The decision tree of \<^verbatim>\<open>src/utils/decision_tree.py\<close> works on a pandas table \<^verbatim>\<open>X\<close> and a
  row-aligned label series \<^verbatim>\<open>Y\<close>. A row gives every column a value; a categorical column
  holds symbols and a numerical column holds numbers, and in both a value may be missing
  (pandas NaN), written \<open>None\<close>. The model keeps every row paired with its label, so that a
  boolean mask applied to \<^verbatim>\<open>X\<close> and to \<^verbatim>\<open>Y\<close> is one filter. Python floats are idealised as
  real numbers.
\<close>

datatype error =
  ValueError | TypeError | IndexError | ZeroDivisionError | MathDomainError | UnboundLocalError
  | OutOfFuel

record row =
  cat_val :: "string \<Rightarrow> string option"
  num_val :: "string \<Rightarrow> real option"

type_synonym 'l dataset = "(row \<times> 'l) list"

definition bindE :: "error + 'a \<Rightarrow> ('a \<Rightarrow> error + 'b) \<Rightarrow> error + 'b" where
  "bindE m f = (case m of Inl e \<Rightarrow> Inl e | Inr v \<Rightarrow> f v)"

text \<open>
  In the entropy functions division and the binary logarithm are checked: a zero divisor
  and a non-positive argument of \<^verbatim>\<open>math.log2\<close> are results of their own, so that their
  absence is a theorem.
\<close>

definition py_div :: "nat \<Rightarrow> nat \<Rightarrow> error + real" where
  "py_div a b = (if b = 0 then Inl ZeroDivisionError else Inr (real a / real b))"

definition py_log2 :: "real \<Rightarrow> error + real" where
  "py_log2 x = (if x \<le> 0 then Inl MathDomainError else Inr (log 2 x))"

text \<open>The term \<^verbatim>\<open>(m/n) * math.log2(m/n)\<close> of both entropy functions.\<close>

definition ratio_log_term :: "nat \<Rightarrow> nat \<Rightarrow> error + real" where
  "ratio_log_term m n =
     bindE (py_div m n) (\<lambda>p. bindE (py_div m n) (\<lambda>q. bindE (py_log2 q) (\<lambda>l. Inr (p * l))))"

text \<open>
  A numpy float is a number or nan. Arithmetic with nan gives nan, and every comparison with
  nan is false.
\<close>

datatype npfloat = Finite real | NaN

fun np_add :: "npfloat \<Rightarrow> npfloat \<Rightarrow> npfloat" where
  "np_add (Finite x) (Finite y) = Finite (x + y)"
| "np_add _ _ = NaN"

fun np_sub :: "npfloat \<Rightarrow> npfloat \<Rightarrow> npfloat" where
  "np_sub (Finite x) (Finite y) = Finite (x - y)"
| "np_sub _ _ = NaN"

fun np_mult :: "npfloat \<Rightarrow> npfloat \<Rightarrow> npfloat" where
  "np_mult (Finite x) (Finite y) = Finite (x * y)"
| "np_mult _ _ = NaN"

fun np_less :: "npfloat \<Rightarrow> npfloat \<Rightarrow> bool" where
  "np_less (Finite x) (Finite y) = (x < y)"
| "np_less _ _ = False"

text \<open>A Python number given as an option of the constructor: an int or a float.\<close>

datatype pynum = PyInt int | PyFloat real

definition num_value :: "pynum \<Rightarrow> real" where
  "num_value x = (case x of PyInt i \<Rightarrow> of_int i | PyFloat r \<Rightarrow> r)"

section \<open>Entropy\<close>

text \<open>\<^verbatim>\<open>X[name] == value\<close>: a missing cell equals nothing, not even a missing value.\<close>

definition cat_eq :: "string option \<Rightarrow> string option \<Rightarrow> bool" where
  "cat_eq a b = (case a of None \<Rightarrow> False | Some s \<Rightarrow> b = Some s)"

definition count_eq :: "row list \<Rightarrow> string \<Rightarrow> string option \<Rightarrow> nat" where
  "count_eq X name v = length (filter (\<lambda>r. cat_eq (cat_val r name) v) X)"

text \<open>
  \<^verbatim>\<open>set(X[name].tolist())\<close>: the distinct values of the column, a missing value among them
  when there is one. Python leaves the iteration order of a set open; the model takes the
  order of first occurrence.
\<close>

definition column_values :: "row list \<Rightarrow> string \<Rightarrow> string option list" where
  "column_values X name = remdups (map (\<lambda>r. cat_val r name) X)"

fun cat_entropy_loop :: "row list \<Rightarrow> string \<Rightarrow> string option list \<Rightarrow> real \<Rightarrow> error + real" where
  "cat_entropy_loop X name [] entropy = Inr entropy"
| "cat_entropy_loop X name (v # vs) entropy =
     (let m_i = count_eq X name v in
      if m_i \<noteq> 0 then
        (case ratio_log_term m_i (length X) of
           Inl e \<Rightarrow> Inl e
         | Inr t \<Rightarrow> cat_entropy_loop X name vs (entropy - t))
      else cat_entropy_loop X name vs entropy)"

definition categorical_feature_entropy :: "row list \<Rightarrow> string \<Rightarrow> error + real" where
  "categorical_feature_entropy X name = cat_entropy_loop X name (column_values X name) 0"

text \<open>\<^verbatim>\<open>(X[name] < threshold).sum()\<close> and \<^verbatim>\<open>(X[name] >= threshold).sum()\<close>: a missing cell is
  neither less nor at least.\<close>

definition is_less :: "string \<Rightarrow> int \<Rightarrow> row \<Rightarrow> bool" where
  "is_less name threshold r = (case num_val r name of None \<Rightarrow> False | Some v \<Rightarrow> v < of_int threshold)"

definition is_more :: "string \<Rightarrow> int \<Rightarrow> row \<Rightarrow> bool" where
  "is_more name threshold r = (case num_val r name of None \<Rightarrow> False | Some v \<Rightarrow> of_int threshold \<le> v)"

definition numerical_feature_entropy :: "row list \<Rightarrow> string \<Rightarrow> int \<Rightarrow> error + real" where
  "numerical_feature_entropy X name threshold =
     (let n = length X;
          less = length (filter (is_less name threshold) X);
          more = length (filter (is_more name threshold) X)
      in if less = 0 \<and> more = 0 then Inr 0
         else if less = 0 then bindE (ratio_log_term more n) (\<lambda>t. Inr (- t))
         else if more = 0 then bindE (ratio_log_term less n) (\<lambda>t. Inr (- t))
         else bindE (ratio_log_term less n) (\<lambda>a.
              bindE (ratio_log_term more n) (\<lambda>b. Inr (- a - b))))"

section \<open>The tree object and information gain\<close>

text \<open>
  The constructor's options and the attributes that \<^verbatim>\<open>fit\<close> records on \<^verbatim>\<open>self\<close>.
  \<^verbatim>\<open>min_impurity_decrease\<close> is a float by default (\<^verbatim>\<open>0.05\<close>), and may be given as an int.
\<close>

record config =
  min_samples_split :: int
  min_samples_leaf :: int
  min_impurity_decrease :: pynum

record 'l decision_tree =
  options :: config
  feature_names :: "string list"
  class_names :: "'l list"
  categorical_feature_names :: "string list"
  numerical_feature_names :: "string list"

definition default_config :: config where
  "default_config =
     \<lparr>min_samples_split = 2, min_samples_leaf = 1, min_impurity_decrease = PyFloat 0.05\<rparr>"

text \<open>\<^verbatim>\<open>X[Y == class_name]\<close> and \<^verbatim>\<open>(Y == class_name).sum()\<close>.\<close>

definition rows_with_label :: "'l dataset \<Rightarrow> 'l \<Rightarrow> row list" where
  "rows_with_label data c = map fst (filter (\<lambda>p. snd p = c) data)"

definition count_label :: "'l dataset \<Rightarrow> 'l \<Rightarrow> nat" where
  "count_label data c = length (filter (\<lambda>p. snd p = c) data)"

text \<open>
  \<^verbatim>\<open>A_i / A\<close> in the gain loops divides numpy integers, which raises nothing: the count
  \<^verbatim>\<open>A_i\<close> of a class is at most the subset size \<^verbatim>\<open>A\<close>, so on the empty subset the quotient
  is \<open>0 / 0\<close>, which is nan (with a warning).
\<close>

definition class_share :: "'l dataset \<Rightarrow> 'l \<Rightarrow> npfloat" where
  "class_share data c =
     (if length data = 0 then NaN else Finite (real (count_label data c) / real (length data)))"

fun cat_gain_loop :: "'l dataset \<Rightarrow> string \<Rightarrow> 'l list \<Rightarrow> npfloat \<Rightarrow> error + npfloat" where
  "cat_gain_loop data name [] b = Inr b"
| "cat_gain_loop data name (c # cs) b =
     (case categorical_feature_entropy (rows_with_label data c) name of
        Inl e \<Rightarrow> Inl e
      | Inr h \<Rightarrow>
          cat_gain_loop data name cs (np_add b (np_mult (class_share data c) (Finite h))))"

definition categorical_information_gain ::
  "'l decision_tree \<Rightarrow> 'l dataset \<Rightarrow> string \<Rightarrow> error + npfloat" where
  "categorical_information_gain self data name =
     bindE (categorical_feature_entropy (map fst data) name) (\<lambda>a.
     bindE (cat_gain_loop data name (class_names self) (Finite 0)) (\<lambda>b.
       Inr (np_sub (Finite a) b)))"

fun num_gain_loop ::
  "'l dataset \<Rightarrow> string \<Rightarrow> int \<Rightarrow> 'l list \<Rightarrow> npfloat \<Rightarrow> error + npfloat" where
  "num_gain_loop data name threshold [] b = Inr b"
| "num_gain_loop data name threshold (c # cs) b =
     (case numerical_feature_entropy (rows_with_label data c) name threshold of
        Inl e \<Rightarrow> Inl e
      | Inr h \<Rightarrow>
          num_gain_loop data name threshold cs
            (np_add b (np_mult (class_share data c) (Finite h))))"

text \<open>The body of the threshold loop: \<^verbatim>\<open>a\<close>, \<^verbatim>\<open>b\<close> and \<^verbatim>\<open>gain = a - b\<close>.\<close>

definition threshold_gain ::
  "'l decision_tree \<Rightarrow> 'l dataset \<Rightarrow> string \<Rightarrow> int \<Rightarrow> error + npfloat" where
  "threshold_gain self data name threshold =
     bindE (numerical_feature_entropy (map fst data) name threshold) (\<lambda>a.
     bindE (num_gain_loop data name threshold (class_names self) (Finite 0)) (\<lambda>b.
       Inr (np_sub (Finite a) b)))"

text \<open>
  \<^verbatim>\<open>X[name].max()\<close> skips missing cells and is nan when nothing is left; \<^verbatim>\<open>int\<close> truncates
  toward zero and raises ValueError on nan; \<^verbatim>\<open>range(k)\<close> is \<open>0, \<dots>, k - 1\<close>.
\<close>

definition column_max :: "row list \<Rightarrow> string \<Rightarrow> real option" where
  "column_max X name =
     (case List.map_filter (\<lambda>r. num_val r name) X of [] \<Rightarrow> None | v # vs \<Rightarrow> Some (fold max vs v))"

definition py_int :: "real \<Rightarrow> int" where
  "py_int x = (if 0 \<le> x then \<lfloor>x\<rfloor> else \<lceil>x\<rceil>)"

definition thresholds :: "row list \<Rightarrow> string \<Rightarrow> error + int list" where
  "thresholds X name =
     (case column_max X name of None \<Rightarrow> Inl ValueError | Some m \<Rightarrow> Inr [0..py_int m - 1])"

text \<open>
  The threshold loop. \<^verbatim>\<open>best_gain\<close> starts at 0 and is never None, so the test
  \<^verbatim>\<open>best_gain is None or best_gain < gain\<close> is \<^verbatim>\<open>best_gain < gain\<close>, which is false for a
  gain of nan.
\<close>

fun threshold_loop ::
  "'l decision_tree \<Rightarrow> 'l dataset \<Rightarrow> string \<Rightarrow> int list \<Rightarrow> real \<times> int option
     \<Rightarrow> error + (real \<times> int option)" where
  "threshold_loop self data name [] best = Inr best"
| "threshold_loop self data name (threshold # rest) (best_gain, best_threshold) =
     (case threshold_gain self data name threshold of
        Inl e \<Rightarrow> Inl e
      | Inr gain \<Rightarrow>
          threshold_loop self data name rest
            (case gain of
               Finite g \<Rightarrow>
                 if best_gain < g then (g, Some threshold) else (best_gain, best_threshold)
             | NaN \<Rightarrow> (best_gain, best_threshold)))"

definition numerical_information_gain ::
  "'l decision_tree \<Rightarrow> 'l dataset \<Rightarrow> string \<Rightarrow> error + (real \<times> int option)" where
  "numerical_information_gain self data name =
     bindE (thresholds (map fst data) name) (\<lambda>ts. threshold_loop self data name ts (0, None))"

text \<open>
  A gain is a float (\<open>Scalar\<close>), a Python int (\<open>IntScalar\<close>), a pair (numerical) or None (a
  column in neither list). The categorical gain \<^verbatim>\<open>a - b\<close> is a numpy float as soon as one of
  \<^verbatim>\<open>a\<close> and \<^verbatim>\<open>b\<close> is; it is the int 0 when the entropy loop subtracted no term from
  \<^verbatim>\<open>entropy = 0\<close> and the class loop added none to \<^verbatim>\<open>b = 0\<close>.
\<close>

datatype gain = Scalar npfloat | IntScalar int | Pair real "int option" | NoGain

definition entropy_untouched :: "row list \<Rightarrow> string \<Rightarrow> bool" where
  "entropy_untouched X name = list_all (\<lambda>v. count_eq X name v = 0) (column_values X name)"

definition information_gain :: "'l decision_tree \<Rightarrow> 'l dataset \<Rightarrow> string \<Rightarrow> error + gain" where
  "information_gain self data name =
     (if name \<in> set (categorical_feature_names self) then
        bindE (categorical_information_gain self data name) (\<lambda>g.
          Inr (if class_names self = [] \<and> entropy_untouched (map fst data) name then IntScalar 0
               else Scalar g))
      else if name \<in> set (numerical_feature_names self) then
        bindE (numerical_information_gain self data name) (\<lambda>p. Inr (Pair (fst p) (snd p)))
      else Inr NoGain)"

section \<open>Splitting\<close>

text \<open>
  The value on the edge to a child: a categorical value, or the text \<^verbatim>\<open>< t\<close> or \<^verbatim>\<open>>= t\<close>,
  where \<^verbatim>\<open>t\<close> is the threshold of the best gain, an int or None.
\<close>

datatype edge_value = CatValue "string option" | Less "int option" | AtLeast "int option"

definition categorical_split :: "'l dataset \<Rightarrow> string \<Rightarrow> ('l dataset \<times> edge_value) list" where
  "categorical_split data name =
     map (\<lambda>v. (filter (\<lambda>p. cat_eq (cat_val (fst p) name) v) data, CatValue v))
       (column_values (map fst data) name)"

text \<open>
  \<^verbatim>\<open>X[name] < threshold\<close> and \<^verbatim>\<open>X[name] >= threshold\<close> in \<^verbatim>\<open>_numerical_split\<close>: pandas
  compares a column with None as false in every row.
\<close>

definition below :: "string \<Rightarrow> int option \<Rightarrow> row \<Rightarrow> bool" where
  "below name threshold r = (case threshold of None \<Rightarrow> False | Some t \<Rightarrow> is_less name t r)"

definition not_below :: "string \<Rightarrow> int option \<Rightarrow> row \<Rightarrow> bool" where
  "not_below name threshold r = (case threshold of None \<Rightarrow> False | Some t \<Rightarrow> is_more name t r)"

definition numerical_split ::
  "'l dataset \<Rightarrow> string \<Rightarrow> int option \<Rightarrow> ('l dataset \<times> edge_value) list" where
  "numerical_split data name threshold =
     [(filter (\<lambda>p. below name threshold (fst p)) data, Less threshold),
      (filter (\<lambda>p. not_below name threshold (fst p)) data, AtLeast threshold)]"

text \<open>
  \<^verbatim>\<open>_split\<close> reads \<^verbatim>\<open>threshold[1]\<close> of the best gain for a numerical feature. Indexing a
  numpy float, an int or None raises. A name in neither list leaves the result unassigned.
\<close>

definition split ::
  "'l decision_tree \<Rightarrow> 'l dataset \<Rightarrow> string \<Rightarrow> gain \<Rightarrow> error + ('l dataset \<times> edge_value) list" where
  "split self data name threshold =
     (if name \<in> set (categorical_feature_names self) then Inr (categorical_split data name)
      else if name \<in> set (numerical_feature_names self) then
        (case threshold of
           Pair g t \<Rightarrow> Inr (numerical_split data name t)
         | Scalar g \<Rightarrow> Inl IndexError
         | IntScalar i \<Rightarrow> Inl TypeError
         | NoGain \<Rightarrow> Inl TypeError)
      else Inl UnboundLocalError)"

section \<open>Feature eligibility and the node builder\<close>

text \<open>
  The special-case registry maps a prerequisite feature to a feature name or to a list of
  names; it is a dict, kept as an association list. The eligible list holds whatever was
  put into it: feature names, and the objects that \<^verbatim>\<open>append\<close> added.
\<close>

datatype dependents = One string | Many "string list"

type_synonym registry = "(string \<times> dependents) list"

datatype feature_entry = FeatureName string | NameList "string list"

definition entry_of :: "dependents \<Rightarrow> feature_entry" where
  "entry_of d = (case d of One n \<Rightarrow> FeatureName n | Many ns \<Rightarrow> NameList ns)"

text \<open>\<^verbatim>\<open>if special_cases:\<close> holds for a dict that is there and not empty.\<close>

definition truthy :: "registry option \<Rightarrow> bool" where
  "truthy special_cases = (case special_cases of None \<Rightarrow> False | Some reg \<Rightarrow> reg \<noteq> [])"

text \<open>\<^verbatim>\<open>list.remove\<close> takes out the first occurrence and raises ValueError when there is none.\<close>

definition py_remove :: "'a \<Rightarrow> 'a list \<Rightarrow> error + 'a list" where
  "py_remove x xs = (if x \<in> set xs then Inr (remove1 x xs) else Inl ValueError)"

text \<open>
  The selection loop. Its four \<^verbatim>\<open>isinstance\<close> branches compare the score of the best gain
  with the score of the current one, each a float or a pair; a gain that is an int or None
  matches no branch, and neither does a best gain that is an int. An entry that is a list
  makes \<^verbatim>\<open>_information_gain\<close> raise: \<^verbatim>\<open>X[feature_name].isnull().any()\<close> is then a Series,
  which has no truth value.
\<close>

fun better :: "gain \<Rightarrow> gain \<Rightarrow> bool" where
  "better (Scalar b) (Scalar c) = np_less b c"
| "better (Pair b bt) (Scalar c) = np_less (Finite b) c"
| "better (Scalar b) (Pair c ct) = np_less b (Finite c)"
| "better (Pair b bt) (Pair c ct) = (b < c)"
| "better _ _ = False"

fun best_loop ::
  "'l decision_tree \<Rightarrow> 'l dataset \<Rightarrow> feature_entry list \<Rightarrow> gain \<times> string option
     \<Rightarrow> error + (gain \<times> string option)" where
  "best_loop self data [] best = Inr best"
| "best_loop self data (entry # rest) (best_gain, best_feature) =
     (case entry of
        NameList ns \<Rightarrow> Inl ValueError
      | FeatureName feature_name \<Rightarrow>
          (case information_gain self data feature_name of
             Inl e \<Rightarrow> Inl e
           | Inr current_gain \<Rightarrow>
               best_loop self data rest
                 (if better best_gain current_gain then (current_gain, Some feature_name)
                  else (best_gain, best_feature))))"

text \<open>The loop starts from \<^verbatim>\<open>best_gain = self._min_impurity_decrease\<close> and no best feature.\<close>

definition start_gain :: "pynum \<Rightarrow> gain" where
  "start_gain x = (case x of PyInt i \<Rightarrow> IntScalar i | PyFloat d \<Rightarrow> Scalar (Finite d))"

definition select_best ::
  "'l decision_tree \<Rightarrow> 'l dataset \<Rightarrow> feature_entry list \<Rightarrow> error + (gain \<times> string option)" where
  "select_best self data available =
     best_loop self data available (start_gain (min_impurity_decrease (options self)), None)"

text \<open>
  The score of a gain that the loop can compare: the float itself when it is a number, or
  the first component of the pair. An int, nan and None have none.
\<close>

definition score :: "gain \<Rightarrow> real option" where
  "score g =
     (case g of
        Scalar x \<Rightarrow> (case x of Finite s \<Rightarrow> Some s | NaN \<Rightarrow> None)
      | IntScalar i \<Rightarrow> None
      | Pair s t \<Rightarrow> Some s
      | NoGain \<Rightarrow> None)"

definition entry_score :: "'l decision_tree \<Rightarrow> 'l dataset \<Rightarrow> feature_entry \<Rightarrow> real option" where
  "entry_score self data entry =
     (case entry of
        NameList ns \<Rightarrow> None
      | FeatureName name \<Rightarrow>
          (case information_gain self data name of Inl e \<Rightarrow> None | Inr g \<Rightarrow> score g))"

text \<open>The class loop: the distribution, and the first class with the largest count.\<close>

fun distribution_loop ::
  "'l dataset \<Rightarrow> 'l list \<Rightarrow> nat list \<times> 'l option \<times> int \<Rightarrow> nat list \<times> 'l option \<times> int" where
  "distribution_loop data [] acc = acc"
| "distribution_loop data (c # cs) (distribution, label, max_samples_per_class) =
     (let samples_per_class = count_label data c in
      distribution_loop data cs
        (distribution @ [samples_per_class],
         if max_samples_per_class < int samples_per_class then (Some c, int samples_per_class)
         else (label, max_samples_per_class)))"

text \<open>
  \<^verbatim>\<open>available_feature_names.append(special_cases[best_feature])\<close> and
  \<^verbatim>\<open>special_cases.pop(best_feature)\<close>, under \<^verbatim>\<open>if special_cases:\<close> and
  \<^verbatim>\<open>if best_feature in special_cases.keys():\<close>. The second component is the registry object
  after the step.
\<close>

definition unlock ::
  "string \<Rightarrow> feature_entry list \<Rightarrow> registry option \<Rightarrow> feature_entry list \<times> registry option" where
  "unlock best_feature available special_cases =
     (case special_cases of
        None \<Rightarrow> (available, None)
      | Some reg \<Rightarrow>
          if reg \<noteq> [] then
            (case map_of reg best_feature of
               None \<Rightarrow> (available, Some reg)
             | Some d \<Rightarrow>
                 (available @ [entry_of d], Some (filter (\<lambda>kv. fst kv \<noteq> best_feature) reg)))
          else (available, Some reg))"

datatype 'l node =
  Node (split_feature: "string option") (feature_value: "edge_value option") (samples: nat)
    (distribution: "nat list") (label: "'l option") (childs: "'l node list")

text \<open>
  \<^verbatim>\<open>_generate_node\<close>. The recursion is bounded by fuel, and running out of it is the result
  \<open>Inl OutOfFuel\<close>. The registry is one shared object: each call returns it as the call left
  it, and the next sibling starts from there. A child is handed the registry only while it
  is not empty. \<^verbatim>\<open>if best_feature:\<close> fails for no feature and for the empty name.
\<close>

fun generate_node ::
  "nat \<Rightarrow> 'l decision_tree \<Rightarrow> 'l dataset \<Rightarrow> edge_value option \<Rightarrow> feature_entry list
     \<Rightarrow> registry option \<Rightarrow> error + ('l node \<times> registry option)"
and build_children ::
  "nat \<Rightarrow> 'l decision_tree \<Rightarrow> ('l dataset \<times> edge_value) list \<Rightarrow> feature_entry list
     \<Rightarrow> registry option \<Rightarrow> error + ('l node list \<times> registry option)" where
  "generate_node 0 self data fv available special_cases = Inl OutOfFuel"
| "generate_node (Suc k) self data fv available special_cases =
     (case select_best self data available of
        Inl e \<Rightarrow> Inl e
      | Inr (best_gain, best_feature) \<Rightarrow>
          (case distribution_loop data (class_names self) ([], None, - 1) of
             (class_counts, majority, max_samples_per_class) \<Rightarrow>
               (case best_feature of
                  None \<Rightarrow> Inr (Node None fv (length data) class_counts majority [], special_cases)
                | Some name \<Rightarrow>
                    if name = [] then
                      Inr (Node (Some name) fv (length data) class_counts majority [], special_cases)
                    else
                      (case (if name \<in> set (categorical_feature_names self)
                             then py_remove (FeatureName name) available else Inr available) of
                         Inl e \<Rightarrow> Inl e
                       | Inr available1 \<Rightarrow>
                           (case unlock name available1 special_cases of
                              (available2, special_cases2) \<Rightarrow>
                                if min_samples_split (options self) \<le> int (length data) then
                                  (case split self data name best_gain of
                                     Inl e \<Rightarrow> Inl e
                                   | Inr parts \<Rightarrow>
                                       (case build_children k self parts available2 special_cases2 of
                                          Inl e \<Rightarrow> Inl e
                                        | Inr (children, special_cases3) \<Rightarrow>
                                            Inr (Node (Some name) fv (length data) class_counts majority
                                                   children, special_cases3)))
                                else
                                  Inr (Node (Some name) fv (length data) class_counts majority [],
                                       special_cases2))))))"
| "build_children k self [] available special_cases = Inr ([], special_cases)"
| "build_children k self ((x, v) # rest) available special_cases =
     (case (if truthy special_cases
            then generate_node k self x (Some v) available special_cases
            else (case generate_node k self x (Some v) available None of
                    Inl e \<Rightarrow> Inl e
                  | Inr (child, unused) \<Rightarrow> Inr (child, special_cases))) of
        Inl e \<Rightarrow> Inl e
      | Inr (child, special_cases1) \<Rightarrow>
          (case build_children k self rest available special_cases1 of
             Inl e \<Rightarrow> Inl e
           | Inr (children, special_cases2) \<Rightarrow> Inr (child # children, special_cases2)))"

text \<open>The nodes of a tree, and the split features along each path from the root to a leaf.\<close>

fun nodes :: "'l node \<Rightarrow> 'l node list" where
  "nodes (Node sf fv n d l cs) = Node sf fv n d l cs # concat (map nodes cs)"

fun split_paths :: "'l node \<Rightarrow> string option list list" where
  "split_paths (Node sf fv n d l cs) =
     (if cs = [] then [[sf]] else map ((#) sf) (concat (map split_paths cs)))"

text \<open>The features that passed \<^verbatim>\<open>if best_feature:\<close> somewhere in the tree.\<close>

fun chosen_features :: "'l node \<Rightarrow> string list" where
  "chosen_features (Node sf fv n d l cs) =
     (case sf of None \<Rightarrow> [] | Some name \<Rightarrow> if name = [] then [] else [name])
     @ concat (map chosen_features cs)"

section \<open>fit\<close>

text \<open>The loop over \<^verbatim>\<open>special_cases.values()\<close> that removes every dependent feature.\<close>

fun remove_names :: "string list \<Rightarrow> feature_entry list \<Rightarrow> error + feature_entry list" where
  "remove_names [] available = Inr available"
| "remove_names (feature_name # rest) available =
     (case py_remove (FeatureName feature_name) available of
        Inl e \<Rightarrow> Inl e
      | Inr available1 \<Rightarrow> remove_names rest available1)"

fun remove_dependents :: "registry \<Rightarrow> feature_entry list \<Rightarrow> error + feature_entry list" where
  "remove_dependents [] available = Inr available"
| "remove_dependents ((key, One feature_name) # rest) available =
     (case py_remove (FeatureName feature_name) available of
        Inl e \<Rightarrow> Inl e
      | Inr available1 \<Rightarrow> remove_dependents rest available1)"
| "remove_dependents ((key, Many names) # rest) available =
     (case remove_names names available of
        Inl e \<Rightarrow> Inl e
      | Inr available1 \<Rightarrow> remove_dependents rest available1)"

text \<open>
  \<^verbatim>\<open>fit\<close>: \<^verbatim>\<open>columns\<close> is \<^verbatim>\<open>list(X.columns)\<close>. The result is the root (\<^verbatim>\<open>self.tree\<close>) and the
  caller's \<^verbatim>\<open>special_cases\<close> object as \<^verbatim>\<open>fit\<close> leaves it.
\<close>

definition make_self ::
  "config \<Rightarrow> string list \<Rightarrow> ('l::linorder) dataset \<Rightarrow> string list \<Rightarrow> string list \<Rightarrow> 'l decision_tree" where
  "make_self cfg columns data categorical numerical =
     \<lparr>options = cfg, feature_names = columns, class_names = sort (remdups (map snd data)),
      categorical_feature_names = categorical, numerical_feature_names = numerical\<rparr>"

definition fit ::
  "nat \<Rightarrow> config \<Rightarrow> string list \<Rightarrow> ('l::linorder) dataset \<Rightarrow> string list \<Rightarrow> string list
     \<Rightarrow> registry option \<Rightarrow> error + ('l node \<times> registry option)" where
  "fit fuel cfg columns data categorical numerical special_cases =
     (let self = make_self cfg columns data categorical numerical;
          available_feature_names = map FeatureName (feature_names self)
      in case (case special_cases of
                 None \<Rightarrow> Inr available_feature_names
               | Some reg \<Rightarrow> if reg \<noteq> [] then remove_dependents reg available_feature_names
                             else Inr available_feature_names) of
           Inl e \<Rightarrow> Inl e
         | Inr available \<Rightarrow> generate_node fuel self data None available special_cases)"

section \<open>The formulas of the specification\<close>

text \<open>
  The specification's categorical entropy: \<open>H = - \<Sum> (m\<^sub>i / n) log\<^sub>2 (m\<^sub>i / n)\<close> over the distinct
  values observed for the feature in the subset, a term with \<open>m\<^sub>i = 0\<close> skipped.
\<close>

definition spec_categorical_entropy :: "row list \<Rightarrow> string \<Rightarrow> real" where
  "spec_categorical_entropy X name =
     - (\<Sum>v \<in> set (map (\<lambda>r. cat_val r name) X).
          if count_eq X name v = 0 then 0
          else real (count_eq X name v) / real (length X)
               * log 2 (real (count_eq X name v) / real (length X)))"

text \<open>
  The specification's numerical entropy at a threshold: the two terms of the binary split,
  a term with count zero omitted.
\<close>

definition spec_numerical_entropy :: "row list \<Rightarrow> string \<Rightarrow> int \<Rightarrow> real" where
  "spec_numerical_entropy X name t =
     (let n = real (length X);
          less = real (length (filter (is_less name t) X));
          more = real (length (filter (is_more name t) X))
      in - (if less = 0 then 0 else less / n * log 2 (less / n))
         - (if more = 0 then 0 else more / n * log 2 (more / n)))"

text \<open>The class-conditioned gain of the binary split at a threshold.\<close>

definition spec_threshold_gain :: "'l decision_tree \<Rightarrow> 'l dataset \<Rightarrow> string \<Rightarrow> int \<Rightarrow> real" where
  "spec_threshold_gain self data name t =
     spec_numerical_entropy (map fst data) name t
     - (\<Sum>c\<leftarrow>class_names self. real (count_label data c) / real (length data)
            * spec_numerical_entropy (rows_with_label data c) name t)"

section \<open>Parts of the node builder, named\<close>

text \<open>The distribution and the label that the class loop computes for a node, and the
  eligible list after a categorical best feature was removed.\<close>

definition node_counts :: "'l decision_tree \<Rightarrow> 'l dataset \<Rightarrow> nat list" where
  "node_counts self data = fst (distribution_loop data (class_names self) ([], None, - 1))"

definition node_label :: "'l decision_tree \<Rightarrow> 'l dataset \<Rightarrow> 'l option" where
  "node_label self data = fst (snd (distribution_loop data (class_names self) ([], None, - 1)))"

definition after_removal :: "'l decision_tree \<Rightarrow> string \<Rightarrow> feature_entry list \<Rightarrow> feature_entry list" where
  "after_removal self name available =
     (if name \<in> set (categorical_feature_names self) then remove1 (FeatureName name) available
      else available)"

text \<open>The registry without the keys of a set: what \<^verbatim>\<open>pop\<close> leaves after those keys.\<close>

definition pop_all :: "string set \<Rightarrow> registry option \<Rightarrow> registry option" where
  "pop_all A sc = map_option (filter (\<lambda>kv. fst kv \<notin> A)) sc"

text \<open>A dataset is complete when no cell of a categorical or numerical feature column is
  missing.\<close>

definition complete :: "string list \<Rightarrow> string list \<Rightarrow> 'l dataset \<Rightarrow> bool" where
  "complete categorical numerical data =
     list_all (\<lambda>p. list_all (\<lambda>name. cat_val (fst p) name \<noteq> None) categorical
                 \<and> list_all (\<lambda>name. num_val (fst p) name \<noteq> None) numerical) data"

text \<open>
  The feature names of an eligible list, the single names that a registry still holds as
  values, and the invariant of the eligibility tracker: no name is eligible twice, no name
  is the value of two keys, and no eligible name is still a value of the registry.
\<close>

definition names_of :: "feature_entry list \<Rightarrow> string list" where
  "names_of available =
     List.map_filter (\<lambda>e. case e of FeatureName n \<Rightarrow> Some n | NameList ns \<Rightarrow> None) available"

definition one_values_of :: "registry \<Rightarrow> string list" where
  "one_values_of reg = List.map_filter (\<lambda>kv. case snd kv of One n \<Rightarrow> Some n | Many ns \<Rightarrow> None) reg"

definition one_values :: "registry option \<Rightarrow> string list" where
  "one_values sc = (case sc of None \<Rightarrow> [] | Some reg \<Rightarrow> one_values_of reg)"

definition eligibility_inv :: "feature_entry list \<Rightarrow> registry option \<Rightarrow> bool" where
  "eligibility_inv available sc =
     (distinct (names_of available) \<and> distinct (one_values sc)
      \<and> set (names_of available) \<inter> set (one_values sc) = {})"

text \<open>The paths of a tree use names of a set only, and a categorical name at most once.\<close>

definition paths_within :: "string set \<Rightarrow> string list \<Rightarrow> 'l node \<Rightarrow> bool" where
  "paths_within U categorical node =
     (\<forall>p \<in> set (split_paths node).
        (\<forall>n. Some n \<in> set p \<longrightarrow> n \<in> U)
        \<and> (\<forall>n \<in> set categorical. count_list p (Some n) \<le> 1))"

text \<open>The number of pairs of the registry; a bound for the depth of the recursion.\<close>

definition reg_size :: "registry option \<Rightarrow> nat" where
  "reg_size sc = (case sc of None \<Rightarrow> 0 | Some reg \<Rightarrow> length reg)"

section \<open>Example data\<close>

text \<open>Rows from association lists; a column that is not listed is missing.\<close>

definition example_row :: "(string \<times> string) list \<Rightarrow> (string \<times> real) list \<Rightarrow> row" where
  "example_row cs ns = \<lparr>cat_val = map_of cs, num_val = map_of ns\<rparr>"

text \<open>Two rows with the categorical columns \<open>a\<close> and \<open>b\<close> and the numerical column \<open>f\<close>,
  the tree object that \<^verbatim>\<open>fit\<close> makes of them, and the tree it builds when \<open>b\<close> depends on
  \<open>a\<close>.\<close>

definition row_x :: row where
  "row_x = example_row [(''a'', ''x''), (''b'', ''u'')] [(''f'', 0)]"

definition row_y :: row where
  "row_y = example_row [(''a'', ''y''), (''b'', ''u'')] [(''f'', 2)]"

definition two_rows :: "int dataset" where
  "two_rows = [(row_x, 0), (row_y, 1)]"

definition example_self :: "int decision_tree" where
  "example_self = make_self default_config [''a'', ''b'', ''f''] two_rows [''a'', ''b''] [''f'']"


definition example_registry :: registry where
  "example_registry = [(''a'', One ''b'')]"

definition example_tree :: "int node" where
  "example_tree =
     Node (Some ''a'') None 2 [1, 1] (Some 0)
       [Node None (Some (CatValue (Some ''x''))) 1 [1, 0] (Some 0) [],
        Node None (Some (CatValue (Some ''y''))) 1 [0, 1] (Some 1) []]"


definition list_registry :: registry where
  "list_registry = [(''a'', Many [''b'', ''f''])]"

text \<open>One row, whose numerical value 2 gives the thresholds 0 and 1.\<close>

definition one_row :: "int dataset" where
  "one_row = [(example_row [(''a'', ''x'')] [(''f'', 2)], 0)]"

definition one_self :: "int decision_tree" where
  "one_self = make_self default_config [''a'', ''f''] one_row [''a''] [''f'']"

text \<open>Two rows with a missing categorical value in the second, and the tree built on them.\<close>

definition nan_rows :: "int dataset" where
  "nan_rows = [(example_row [(''a'', ''x'')] [], 0), (example_row [] [], 1)]"

definition nan_self :: "int decision_tree" where
  "nan_self = make_self default_config [''a''] nan_rows [''a''] []"

definition nan_tree :: "int node" where
  "nan_tree =
     Node (Some ''a'') None 2 [1, 1] (Some 0)
       [Node None (Some (CatValue (Some ''x''))) 1 [1, 0] (Some 0) [],
        Node None (Some (CatValue None)) 0 [0, 0] (Some 0) []]"

section \<open>The entropy functions never fail\<close>

lemma bindE_Inr [simp]: "bindE (Inr v) f = f v"
  by (simp add: bindE_def)

lemma bindE_Inl [simp]: "bindE (Inl e) f = Inl e"
  by (simp add: bindE_def)

lemma ratio_log_term_ok:
  "0 < m \<Longrightarrow> ratio_log_term m n = (if n = 0 then Inl ZeroDivisionError
     else Inr (real m / real n * log 2 (real m / real n)))"
  by (auto simp: ratio_log_term_def py_div_def py_log2_def divide_le_0_iff)

lemma count_eq_le: "count_eq X name v \<le> length X"
  by (simp add: count_eq_def)

lemma cat_entropy_loop_value:
  "cat_entropy_loop X name vs acc =
     Inr (acc - (\<Sum>v\<leftarrow>vs. if count_eq X name v = 0 then 0
            else real (count_eq X name v) / real (length X)
                 * log 2 (real (count_eq X name v) / real (length X))))"
proof (induction vs arbitrary: acc)
  case Nil
  show ?case by simp
next
  case (Cons v vs)
  show ?case
  proof (cases "count_eq X name v = 0")
    case True
    then show ?thesis by (simp add: Cons.IH)
  next
    case False
    with count_eq_le [of X name v] have n: "length X \<noteq> 0" by linarith
    from False n show ?thesis
      by (simp add: Let_def ratio_log_term_ok Cons.IH algebra_simps)
  qed
qed

lemma categorical_feature_entropy_value:
  "categorical_feature_entropy X name =
     Inr (- (\<Sum>v\<leftarrow>column_values X name. if count_eq X name v = 0 then 0
            else real (count_eq X name v) / real (length X)
                 * log 2 (real (count_eq X name v) / real (length X))))"
  by (simp add: categorical_feature_entropy_def cat_entropy_loop_value)

lemma categorical_feature_entropy_spec:
  "categorical_feature_entropy X name = Inr (spec_categorical_entropy X name)"
  unfolding categorical_feature_entropy_value spec_categorical_entropy_def column_values_def
  by (simp add: sum.distinct_set_conv_list [symmetric])

lemma numerical_feature_entropy_spec:
  "numerical_feature_entropy X name t = Inr (spec_numerical_entropy X name t)"
proof (cases "length X = 0")
  case True
  then show ?thesis by (simp add: numerical_feature_entropy_def spec_numerical_entropy_def)
next
  case False
  then show ?thesis
    by (auto simp: numerical_feature_entropy_def spec_numerical_entropy_def Let_def
          ratio_log_term_ok)
qed

text \<open>
  C9. Both entropy functions return a value on every subset and every threshold: no
  logarithm of a non-positive number and no division by zero is ever reached. On the empty
  subset both return 0.
\<close>

theorem entropy_functions_total:
  "(\<exists>h. categorical_feature_entropy X name = Inr h)
   \<and> (\<exists>h. numerical_feature_entropy X name threshold = Inr h)
   \<and> categorical_feature_entropy [] name = Inr 0
   \<and> numerical_feature_entropy [] name threshold = Inr 0"
  by (simp add: categorical_feature_entropy_value numerical_feature_entropy_spec
        column_values_def spec_numerical_entropy_def)

section \<open>Categorical information gain\<close>

lemma cat_gain_loop_value:
  "data \<noteq> [] \<Longrightarrow>
   cat_gain_loop data name cs (Finite b) =
     Inr (Finite (b + (\<Sum>c\<leftarrow>cs. real (count_label data c) / real (length data)
                 * spec_categorical_entropy (rows_with_label data c) name)))"
  by (induction cs arbitrary: b)
     (simp_all add: class_share_def categorical_feature_entropy_spec algebra_simps)

lemma categorical_information_gain_value:
  assumes "data \<noteq> []"
  shows "categorical_information_gain self data name =
     Inr (Finite (spec_categorical_entropy (map fst data) name
          - (\<Sum>c\<leftarrow>class_names self. real (count_label data c) / real (length data)
                 * spec_categorical_entropy (rows_with_label data c) name)))"
  using assms
  by (simp add: categorical_information_gain_def categorical_feature_entropy_spec
        cat_gain_loop_value)

text \<open>
  C3. On a non-empty subset the categorical information gain is the entropy of the subset
  minus the sum, over the classes of the class list, of the share of the class times the
  entropy of the rows of that class.
\<close>

theorem categorical_gain_formula:
  assumes "data \<noteq> []"
  shows "categorical_information_gain self data name =
     Inr (Finite (spec_categorical_entropy (map fst data) name
          - (\<Sum>c\<leftarrow>class_names self. real (count_label data c) / real (length data)
                 * spec_categorical_entropy (rows_with_label data c) name)))"
  using assms by (rule categorical_information_gain_value)

theorem categorical_gain_formula_witness:
  "two_rows \<noteq> []
   \<and> categorical_information_gain example_self two_rows ''a'' =
     Inr (Finite (spec_categorical_entropy (map fst two_rows) ''a''
          - (\<Sum>c\<leftarrow>class_names example_self.
               real (count_label two_rows c) / real (length two_rows)
               * spec_categorical_entropy (rows_with_label two_rows c) ''a'')))"
  using categorical_gain_formula [of two_rows example_self "''a''"]
  by (simp add: two_rows_def row_x_def row_y_def)

section \<open>Numerical information gain\<close>

lemma num_gain_loop_value:
  "data \<noteq> [] \<Longrightarrow>
   num_gain_loop data name t cs (Finite b) =
     Inr (Finite (b + (\<Sum>c\<leftarrow>cs. real (count_label data c) / real (length data)
                 * spec_numerical_entropy (rows_with_label data c) name t)))"
  by (induction cs arbitrary: b)
     (simp_all add: class_share_def numerical_feature_entropy_spec algebra_simps)

lemma threshold_gain_spec:
  "data \<noteq> [] \<Longrightarrow>
   threshold_gain self data name t = Inr (Finite (spec_threshold_gain self data name t))"
  by (simp add: threshold_gain_def spec_threshold_gain_def numerical_feature_entropy_spec
        num_gain_loop_value)

lemma threshold_loop_result:
  assumes "data \<noteq> []"
  shows "\<exists>g b. threshold_loop self data name ts (g0, b0) = Inr (g, b)
     \<and> g0 \<le> g \<and> (\<forall>t \<in> set ts. spec_threshold_gain self data name t \<le> g)
     \<and> ((g, b) = (g0, b0)
        \<or> (\<exists>i < length ts. b = Some (ts ! i) \<and> spec_threshold_gain self data name (ts ! i) = g
              \<and> g0 < g \<and> (\<forall>j < i. spec_threshold_gain self data name (ts ! j) < g)))"
proof (induction ts arbitrary: g0 b0)
  case Nil
  show ?case by simp
next
  case (Cons t ts)
  let ?G = "spec_threshold_gain self data name"
  define g1 where "g1 = (if g0 < ?G t then ?G t else g0)"
  define b1 where "b1 = (if g0 < ?G t then Some t else b0)"
  have step: "threshold_loop self data name (t # ts) (g0, b0) = threshold_loop self data name ts (g1, b1)"
    using assms by (simp add: threshold_gain_spec g1_def b1_def)
  from Cons.IH [of g1 b1] obtain g b where
    res: "threshold_loop self data name ts (g1, b1) = Inr (g, b)"
    and le: "g1 \<le> g" and ub: "\<forall>t \<in> set ts. ?G t \<le> g"
    and alt: "(g, b) = (g1, b1)
        \<or> (\<exists>i < length ts. b = Some (ts ! i) \<and> ?G (ts ! i) = g \<and> g1 < g \<and> (\<forall>j < i. ?G (ts ! j) < g))"
    by blast
  have g01: "g0 \<le> g1" and t1: "?G t \<le> g1" by (simp_all add: g1_def)
  have "(g, b) = (g0, b0)
        \<or> (\<exists>i < length (t # ts). b = Some ((t # ts) ! i) \<and> ?G ((t # ts) ! i) = g \<and> g0 < g
              \<and> (\<forall>j < i. ?G ((t # ts) ! j) < g))"
    using alt
  proof
    assume same: "(g, b) = (g1, b1)"
    show ?thesis
    proof (cases "g0 < ?G t")
      case True
      with same have "b = Some t" "?G t = g" "g0 < g" by (simp_all add: g1_def b1_def)
      then have "0 < length (t # ts) \<and> b = Some ((t # ts) ! 0) \<and> ?G ((t # ts) ! 0) = g \<and> g0 < g
              \<and> (\<forall>j < 0. ?G ((t # ts) ! j) < g)" by simp
      then show ?thesis by blast
    next
      case False
      with same show ?thesis by (simp add: g1_def b1_def)
    qed
  next
    assume "\<exists>i < length ts. b = Some (ts ! i) \<and> ?G (ts ! i) = g \<and> g1 < g \<and> (\<forall>j < i. ?G (ts ! j) < g)"
    then obtain i where i: "i < length ts" "b = Some (ts ! i)" "?G (ts ! i) = g" "g1 < g"
      "\<forall>j < i. ?G (ts ! j) < g" by blast
    have "\<forall>j < Suc i. ?G ((t # ts) ! j) < g"
    proof (intro allI impI)
      fix j assume "j < Suc i"
      then show "?G ((t # ts) ! j) < g"
        using i(4,5) t1 by (cases j) auto
    qed
    with i g01 have "Suc i < length (t # ts) \<and> b = Some ((t # ts) ! Suc i) \<and> ?G ((t # ts) ! Suc i) = g
        \<and> g0 < g \<and> (\<forall>j < Suc i. ?G ((t # ts) ! j) < g)" by simp
    then show ?thesis by blast
  qed
  moreover have "g0 \<le> g" using g01 le by simp
  moreover have "\<forall>u \<in> set (t # ts). ?G u \<le> g" using ub t1 le by auto
  ultimately show ?case using step res by simp
qed

lemma column_max_Max:
  "column_max X name =
     (case List.map_filter (\<lambda>r. num_val r name) X of [] \<Rightarrow> None | v # vs \<Rightarrow> Some (Max (set (v # vs))))"
  by (simp add: column_max_def Max.set_eq_fold [symmetric] split: list.splits)

lemma py_range_floor: "t \<in> set [0..py_int m - 1] \<longleftrightarrow> 0 \<le> t \<and> t < \<lfloor>m\<rfloor>"
  by (auto simp: py_int_def) linarith+


text \<open>
  C4, as amended. On a non-empty subset in which the feature has a value, the numerical
  information gain returns a pair \<open>(g, bt)\<close>: \<open>g\<close> is at least 0 and at least the
  class-conditioned gain at every integer threshold from 0 through \<open>\<lfloor>max\<rfloor> - 1\<close>; when \<open>bt\<close>
  is a threshold, it is the least threshold of that range whose gain is \<open>g\<close>, and \<open>g\<close> is
  positive; when \<open>bt\<close> is None, \<open>g\<close> is 0.
\<close>

theorem numerical_gain_best_threshold:
  assumes "data \<noteq> []"
    and "List.map_filter (\<lambda>r. num_val r name) (map fst data) \<noteq> []"
  shows "\<exists>g bt. numerical_information_gain self data name = Inr (g, bt)
     \<and> 0 \<le> g
     \<and> (\<forall>t. 0 \<le> t \<and> t < \<lfloor>Max (set (List.map_filter (\<lambda>r. num_val r name) (map fst data)))\<rfloor>
            \<longrightarrow> spec_threshold_gain self data name t \<le> g)
     \<and> (bt = None \<longrightarrow> g = 0)
     \<and> (\<forall>t. bt = Some t \<longrightarrow>
            0 \<le> t \<and> t < \<lfloor>Max (set (List.map_filter (\<lambda>r. num_val r name) (map fst data)))\<rfloor>
            \<and> spec_threshold_gain self data name t = g \<and> 0 < g
            \<and> (\<forall>u. 0 \<le> u \<and> u < t \<longrightarrow> spec_threshold_gain self data name u < g))"
proof -
  let ?G = "spec_threshold_gain self data name"
  let ?m = "Max (set (List.map_filter (\<lambda>r. num_val r name) (map fst data)))"
  let ?ts = "[0..py_int ?m - 1]"
  from assms(2) have cm: "column_max (map fst data) name = Some ?m"
    by (simp add: column_max_Max split: list.splits)
  then have run: "numerical_information_gain self data name = threshold_loop self data name ?ts (0, None)"
    by (simp add: numerical_information_gain_def thresholds_def)
  from threshold_loop_result [OF assms(1), of self name ?ts 0 None] obtain g b where
    res: "threshold_loop self data name ?ts (0, None) = Inr (g, b)"
    and le: "0 \<le> g" and ub: "\<forall>t \<in> set ?ts. ?G t \<le> g"
    and alt: "(g, b) = (0, None)
        \<or> (\<exists>i < length ?ts. b = Some (?ts ! i) \<and> ?G (?ts ! i) = g \<and> 0 < g \<and> (\<forall>j < i. ?G (?ts ! j) < g))"
    by blast
  have nth: "?ts ! i = int i" if "i < length ?ts" for i
    using that by (simp add: nth_upto)
  have mem: "t \<in> set ?ts \<longleftrightarrow> 0 \<le> t \<and> t < \<lfloor>?m\<rfloor>" for t
    by (rule py_range_floor)
  have none: "b = None \<longrightarrow> g = 0" using alt by auto
  have some: "0 \<le> t \<and> t < \<lfloor>?m\<rfloor> \<and> ?G t = g \<and> 0 < g \<and> (\<forall>u. 0 \<le> u \<and> u < t \<longrightarrow> ?G u < g)"
    if bt: "b = Some t" for t
  proof -
    from alt bt obtain i where i: "i < length ?ts" "t = ?ts ! i" "?G (?ts ! i) = g" "0 < g"
      "\<forall>j < i. ?G (?ts ! j) < g" by auto
    have ti: "t = int i" using i(1,2) nth by simp
    have "t \<in> set ?ts" using i(1,2) nth_mem by blast
    then have rng: "0 \<le> t \<and> t < \<lfloor>?m\<rfloor>" using mem by blast
    have "?G u < g" if u: "0 \<le> u \<and> u < t" for u
    proof -
      from u ti have lt: "nat u < i" by linarith
      then have "nat u < length ?ts" using i(1) by linarith
      then have "?ts ! nat u = u" using nth [of "nat u"] u by simp
      moreover from i(5) lt have "?G (?ts ! nat u) < g" by blast
      ultimately show ?thesis by simp
    qed
    with rng i show ?thesis by blast
  qed
  from ub mem have all: "\<forall>t. 0 \<le> t \<and> t < \<lfloor>?m\<rfloor> \<longrightarrow> ?G t \<le> g" by blast
  have "numerical_information_gain self data name = Inr (g, b)" using run res by simp
  with le all none some show ?thesis by (intro exI conjI allI impI) (assumption | blast)+
qed

lemma upto01: "[0..(1::int)] = [0, 1]"
  by code_simp

theorem numerical_gain_best_threshold_witness:
  "two_rows \<noteq> [] \<and> List.map_filter (\<lambda>r. num_val r ''f'') (map fst two_rows) \<noteq> []
   \<and> (\<exists>g bt. numerical_information_gain example_self two_rows ''f'' = Inr (g, bt)
     \<and> 0 \<le> g
     \<and> (\<forall>t. 0 \<le> t \<and> t < \<lfloor>Max (set (List.map_filter (\<lambda>r. num_val r ''f'') (map fst two_rows)))\<rfloor>
            \<longrightarrow> spec_threshold_gain example_self two_rows ''f'' t \<le> g)
     \<and> (bt = None \<longrightarrow> g = 0)
     \<and> (\<forall>t. bt = Some t \<longrightarrow>
            0 \<le> t \<and> t < \<lfloor>Max (set (List.map_filter (\<lambda>r. num_val r ''f'') (map fst two_rows)))\<rfloor>
            \<and> spec_threshold_gain example_self two_rows ''f'' t = g \<and> 0 < g
            \<and> (\<forall>u. 0 \<le> u \<and> u < t \<longrightarrow> spec_threshold_gain example_self two_rows ''f'' u < g)))"
proof -
  have ne: "two_rows \<noteq> []" by (simp add: two_rows_def row_x_def row_y_def)
  have vs: "List.map_filter (\<lambda>r. num_val r ''f'') (map fst two_rows) \<noteq> []"
    by (simp add: two_rows_def row_x_def row_y_def example_row_def List.map_filter_def)
  from ne vs numerical_gain_best_threshold [OF ne vs, of example_self] show ?thesis by blast
qed

text \<open>
  C4 as stated fails where no threshold has a positive gain: one row with the value 2 has
  the thresholds 0 and 1, both with gain 0, and the result is 0 with no threshold.
\<close>

theorem numerical_gain_counterexample:
  "thresholds (map fst one_row) ''f'' = Inr [0, 1]
   \<and> threshold_gain one_self one_row ''f'' 0 = Inr (Finite 0)
   \<and> threshold_gain one_self one_row ''f'' 1 = Inr (Finite 0)
   \<and> numerical_information_gain one_self one_row ''f'' = Inr (0, None)"
proof -
  have ne: "one_row \<noteq> []" by (simp add: one_row_def)
  have cn: "class_names one_self = [0]" by (simp add: one_self_def make_self_def one_row_def)
  have g: "spec_threshold_gain one_self one_row ''f'' t = 0" if "t = 0 \<or> t = 1" for t
    using that
    by (auto simp: spec_threshold_gain_def cn spec_numerical_entropy_def one_row_def example_row_def
          is_less_def is_more_def rows_with_label_def count_label_def)
  have ts: "thresholds (map fst one_row) ''f'' = Inr [0, 1]"
    by (simp add: thresholds_def column_max_def List.map_filter_def one_row_def example_row_def
          py_int_def upto01)
  show ?thesis
    by (simp add: numerical_information_gain_def ts threshold_gain_spec [OF ne] g)
qed

section \<open>The selection loop\<close>

lemma better_iff:
  "better bg g \<longleftrightarrow> (\<exists>b c. score bg = Some b \<and> score g = Some c \<and> b < c)"
proof -
  have f: "np_less x y \<longleftrightarrow> (\<exists>b c. x = Finite b \<and> y = Finite c \<and> b < c)" for x y
    by (cases x; cases y) simp_all
  show ?thesis
    by (cases bg; cases g) (auto simp: score_def f split: npfloat.splits)
qed

lemma best_loop_stuck:
  assumes "best_loop self data avail (bg0, bf0) = Inr (bg, bf)" and "score bg0 = None"
  shows "(bg, bf) = (bg0, bf0)"
  using assms(1)
proof (induction avail)
  case Nil
  then show ?case by simp
next
  case (Cons entry rest)
  from Cons.prems obtain name where entry: "entry = FeatureName name"
    by (cases entry) simp_all
  from Cons.prems entry obtain g where g: "information_gain self data name = Inr g"
    by (cases "information_gain self data name") simp_all
  have "\<not> better bg0 g" using assms(2) by (simp add: better_iff)
  with Cons.prems entry g have "best_loop self data rest (bg0, bf0) = Inr (bg, bf)" by simp
  then show ?case by (rule Cons.IH)
qed

lemma best_loop_result:
  assumes "best_loop self data avail (bg0, bf0) = Inr (bg, bf)" and "score bg0 = Some s0"
  shows "\<exists>s. score bg = Some s \<and> s0 \<le> s
     \<and> (\<forall>j < length avail. \<forall>s'. entry_score self data (avail ! j) = Some s' \<longrightarrow> s' \<le> s)
     \<and> ((bg, bf) = (bg0, bf0)
        \<or> (\<exists>i < length avail. \<exists>name. avail ! i = FeatureName name \<and> bf = Some name
              \<and> information_gain self data name = Inr bg \<and> s0 < s
              \<and> (\<forall>j < i. \<forall>s'. entry_score self data (avail ! j) = Some s' \<longrightarrow> s' < s)))"
  using assms
proof (induction avail arbitrary: bg0 bf0 s0)
  case Nil
  then show ?case by simp
next
  case (Cons entry rest)
  from Cons.prems(1) obtain name where entry: "entry = FeatureName name"
    by (cases entry) simp_all
  from Cons.prems(1) entry obtain g where g: "information_gain self data name = Inr g"
    by (cases "information_gain self data name") simp_all
  define bg1 where "bg1 = (if better bg0 g then g else bg0)"
  define bf1 where "bf1 = (if better bg0 g then Some name else bf0)"
  have run: "best_loop self data rest (bg1, bf1) = Inr (bg, bf)"
    using Cons.prems(1) entry g by (simp add: bg1_def bf1_def split: if_splits)
  have es: "entry_score self data entry = score g"
    by (simp add: entry_score_def entry g)
  have "\<exists>s1. score bg1 = Some s1 \<and> s0 \<le> s1 \<and> (\<forall>c. score g = Some c \<longrightarrow> c \<le> s1)
          \<and> (better bg0 g \<longrightarrow> s0 < s1)"
  proof (cases "better bg0 g")
    case True
    then obtain c where "score g = Some c" "s0 < c"
      using Cons.prems(2) by (auto simp: better_iff)
    then show ?thesis using True by (simp add: bg1_def)
  next
    case False
    then have "\<forall>c. score g = Some c \<longrightarrow> c \<le> s0"
      using Cons.prems(2) by (auto simp: better_iff not_less)
    then show ?thesis using False Cons.prems(2) by (simp add: bg1_def)
  qed
  then obtain s1 where s1: "score bg1 = Some s1" and s01: "s0 \<le> s1"
    and gs1: "\<forall>c. score g = Some c \<longrightarrow> c \<le> s1"
    and b1: "better bg0 g \<longrightarrow> s0 < s1"
    by blast
  from Cons.IH [OF run s1] obtain s where
    s: "score bg = Some s" and le: "s1 \<le> s"
    and ub: "\<forall>j < length rest. \<forall>s'. entry_score self data (rest ! j) = Some s' \<longrightarrow> s' \<le> s"
    and alt: "(bg, bf) = (bg1, bf1)
        \<or> (\<exists>i < length rest. \<exists>name. rest ! i = FeatureName name \<and> bf = Some name
              \<and> information_gain self data name = Inr bg \<and> s1 < s
              \<and> (\<forall>j < i. \<forall>s'. entry_score self data (rest ! j) = Some s' \<longrightarrow> s' < s))"
    by blast
  have ub': "\<forall>j < length (entry # rest). \<forall>s'. entry_score self data ((entry # rest) ! j) = Some s' \<longrightarrow> s' \<le> s"
  proof (intro allI impI)
    fix j s' assume j: "j < length (entry # rest)"
      and e: "entry_score self data ((entry # rest) ! j) = Some s'"
    show "s' \<le> s"
    proof (cases j)
      case 0
      with e es gs1 le show ?thesis by force
    next
      case (Suc j')
      with j e ub show ?thesis by simp
    qed
  qed
  have alt': "(bg, bf) = (bg0, bf0)
        \<or> (\<exists>i < length (entry # rest). \<exists>name. (entry # rest) ! i = FeatureName name \<and> bf = Some name
              \<and> information_gain self data name = Inr bg \<and> s0 < s
              \<and> (\<forall>j < i. \<forall>s'. entry_score self data ((entry # rest) ! j) = Some s' \<longrightarrow> s' < s))"
    using alt
  proof
    assume same: "(bg, bf) = (bg1, bf1)"
    show ?thesis
    proof (cases "better bg0 g")
      case True
      with same have "bf = Some name" "bg = g" by (simp_all add: bg1_def bf1_def)
      moreover have "s0 < s" using True b1 le by simp
      ultimately have "0 < length (entry # rest) \<and> (entry # rest) ! 0 = FeatureName name \<and> bf = Some name
              \<and> information_gain self data name = Inr bg \<and> s0 < s
              \<and> (\<forall>j < 0. \<forall>s'. entry_score self data ((entry # rest) ! j) = Some s' \<longrightarrow> s' < s)"
        using entry g by simp
      then show ?thesis by blast
    next
      case False
      with same show ?thesis by (simp add: bg1_def bf1_def)
    qed
  next
    assume "\<exists>i < length rest. \<exists>name. rest ! i = FeatureName name \<and> bf = Some name
              \<and> information_gain self data name = Inr bg \<and> s1 < s
              \<and> (\<forall>j < i. \<forall>s'. entry_score self data (rest ! j) = Some s' \<longrightarrow> s' < s)"
    then obtain i n where i: "i < length rest" "rest ! i = FeatureName n" "bf = Some n"
      "information_gain self data n = Inr bg" "s1 < s"
      "\<forall>j < i. \<forall>s'. entry_score self data (rest ! j) = Some s' \<longrightarrow> s' < s" by blast
    have "\<forall>j < Suc i. \<forall>s'. entry_score self data ((entry # rest) ! j) = Some s' \<longrightarrow> s' < s"
    proof (intro allI impI)
      fix j s' assume j: "j < Suc i" and e: "entry_score self data ((entry # rest) ! j) = Some s'"
      show "s' < s"
      proof (cases j)
        case 0
        with e es gs1 i(5) show ?thesis by force
      next
        case (Suc j')
        with j e i(6) show ?thesis by simp
      qed
    qed
    with i s01 have "Suc i < length (entry # rest) \<and> (entry # rest) ! Suc i = FeatureName n \<and> bf = Some n
              \<and> information_gain self data n = Inr bg \<and> s0 < s
              \<and> (\<forall>j < Suc i. \<forall>s'. entry_score self data ((entry # rest) ! j) = Some s' \<longrightarrow> s' < s)"
      by simp
    then show ?thesis by blast
  qed
  have "s0 \<le> s" using s01 le by simp
  with s ub' alt' show ?case by blast
qed

lemma select_best_result:
  assumes "select_best self data available = Inr (bg, bf)"
    and "min_impurity_decrease (options self) = PyFloat d"
  shows "\<exists>s. score bg = Some s \<and> d \<le> s
     \<and> (\<forall>j < length available. \<forall>s'. entry_score self data (available ! j) = Some s' \<longrightarrow> s' \<le> s)
     \<and> ((bg, bf) = (Scalar (Finite d), None)
        \<or> (\<exists>i < length available. \<exists>name. available ! i = FeatureName name \<and> bf = Some name
              \<and> information_gain self data name = Inr bg \<and> d < s
              \<and> (\<forall>j < i. \<forall>s'. entry_score self data (available ! j) = Some s' \<longrightarrow> s' < s)))"
proof -
  have run: "best_loop self data available (Scalar (Finite d), None) = Inr (bg, bf)"
    using assms by (simp add: select_best_def start_gain_def)
  have sc: "score (Scalar (Finite d)) = Some d" by (simp add: score_def)
  from best_loop_result [OF run sc] show ?thesis .
qed

lemma select_best_int:
  assumes "select_best self data available = Inr (bg, bf)"
    and "min_impurity_decrease (options self) = PyInt i"
  shows "bg = IntScalar i \<and> bf = None"
proof -
  have run: "best_loop self data available (IntScalar i, None) = Inr (bg, bf)"
    using assms by (simp add: select_best_def start_gain_def)
  have sc: "score (IntScalar i) = None" by (simp add: score_def)
  from best_loop_stuck [OF run sc] show ?thesis by simp
qed

lemma select_best_Some:
  assumes "select_best self data available = Inr (bg, Some name)"
  shows "FeatureName name \<in> set available \<and> information_gain self data name = Inr bg
     \<and> (\<exists>s d. score bg = Some s \<and> min_impurity_decrease (options self) = PyFloat d \<and> d < s)"
proof (cases "min_impurity_decrease (options self)")
  case (PyInt i)
  from select_best_int [OF assms PyInt] show ?thesis by simp
next
  case (PyFloat d)
  from select_best_result [OF assms PyFloat] obtain s i where
    "score bg = Some s" "i < length available" "available ! i = FeatureName name"
    "information_gain self data name = Inr bg" "d < s"
    by auto
  then show ?thesis using nth_mem PyFloat by metis
qed

text \<open>
  C6. The selection loop starts from \<^verbatim>\<open>min_impurity_decrease\<close> with no feature. A feature
  is the best at the end only if \<^verbatim>\<open>min_impurity_decrease\<close> is a float: then the feature
  stands at a position of the eligible list, the best gain is its gain, its score is
  strictly above \<^verbatim>\<open>min_impurity_decrease\<close>, every earlier entry scores strictly less and no
  entry scores more, so a later feature with an equal score does not replace it. When the
  loop ends with no feature, the best gain is still the start; if that is a float, no
  eligible feature scores above it. The score is the float itself or the first component
  of the pair.
\<close>

theorem best_feature_selection:
  assumes "select_best self data available = Inr (best_gain, best_feature)"
  shows "select_best self data [] = Inr (start_gain (min_impurity_decrease (options self)), None)
     \<and> (best_feature = None \<longrightarrow>
          best_gain = start_gain (min_impurity_decrease (options self))
          \<and> (\<forall>d. min_impurity_decrease (options self) = PyFloat d \<longrightarrow>
                (\<forall>j < length available. \<forall>s. entry_score self data (available ! j) = Some s
                   \<longrightarrow> s \<le> d)))
     \<and> (\<forall>name. best_feature = Some name \<longrightarrow>
          (\<exists>i < length available. \<exists>s d. available ! i = FeatureName name
             \<and> information_gain self data name = Inr best_gain
             \<and> score best_gain = Some s
             \<and> min_impurity_decrease (options self) = PyFloat d \<and> d < s
             \<and> (\<forall>j < i. \<forall>s'. entry_score self data (available ! j) = Some s' \<longrightarrow> s' < s)
             \<and> (\<forall>j < length available. \<forall>s'. entry_score self data (available ! j) = Some s' \<longrightarrow> s' \<le> s)))"
proof -
  have start: "select_best self data [] = Inr (start_gain (min_impurity_decrease (options self)), None)"
    by (simp add: select_best_def)
  have none: "best_gain = start_gain (min_impurity_decrease (options self))
          \<and> (\<forall>d. min_impurity_decrease (options self) = PyFloat d \<longrightarrow>
                (\<forall>j < length available. \<forall>s. entry_score self data (available ! j) = Some s
                   \<longrightarrow> s \<le> d))"
    if nf: "best_feature = None"
  proof (cases "min_impurity_decrease (options self)")
    case (PyInt i)
    from select_best_int [OF assms PyInt] PyInt show ?thesis by (simp add: start_gain_def)
  next
    case (PyFloat d)
    from select_best_result [OF assms PyFloat] obtain s where
      s: "score best_gain = Some s"
      and ub: "\<forall>j < length available. \<forall>s'. entry_score self data (available ! j) = Some s' \<longrightarrow> s' \<le> s"
      and alt: "(best_gain, best_feature) = (Scalar (Finite d), None)
        \<or> (\<exists>i < length available. \<exists>name. available ! i = FeatureName name \<and> best_feature = Some name
              \<and> information_gain self data name = Inr best_gain \<and> d < s
              \<and> (\<forall>j < i. \<forall>s'. entry_score self data (available ! j) = Some s' \<longrightarrow> s' < s))"
      by blast
    from alt nf have bg: "best_gain = Scalar (Finite d)" by auto
    with s have "s = d" by (simp add: score_def)
    with ub bg PyFloat show ?thesis by (simp add: start_gain_def)
  qed
  have some: "\<exists>i < length available. \<exists>s d. available ! i = FeatureName name
             \<and> information_gain self data name = Inr best_gain
             \<and> score best_gain = Some s
             \<and> min_impurity_decrease (options self) = PyFloat d \<and> d < s
             \<and> (\<forall>j < i. \<forall>s'. entry_score self data (available ! j) = Some s' \<longrightarrow> s' < s)
             \<and> (\<forall>j < length available. \<forall>s'. entry_score self data (available ! j) = Some s' \<longrightarrow> s' \<le> s)"
    if sf: "best_feature = Some name" for name
  proof (cases "min_impurity_decrease (options self)")
    case (PyInt i)
    from select_best_int [OF assms PyInt] sf show ?thesis by simp
  next
    case (PyFloat d)
    from select_best_result [OF assms PyFloat] obtain s where
      s: "score best_gain = Some s"
      and ub: "\<forall>j < length available. \<forall>s'. entry_score self data (available ! j) = Some s' \<longrightarrow> s' \<le> s"
      and alt: "(best_gain, best_feature) = (Scalar (Finite d), None)
        \<or> (\<exists>i < length available. \<exists>name. available ! i = FeatureName name \<and> best_feature = Some name
              \<and> information_gain self data name = Inr best_gain \<and> d < s
              \<and> (\<forall>j < i. \<forall>s'. entry_score self data (available ! j) = Some s' \<longrightarrow> s' < s))"
      by blast
    from alt sf obtain i where "i < length available" "available ! i = FeatureName name"
      "information_gain self data name = Inr best_gain" "d < s"
      "\<forall>j < i. \<forall>s'. entry_score self data (available ! j) = Some s' \<longrightarrow> s' < s" by auto
    with s ub PyFloat show ?thesis by blast
  qed
  from start none some show ?thesis by blast
qed


section \<open>The example, evaluated\<close>

lemma log2_half: "log 2 (1 / 2) = - 1"
  by (simp add: log_divide)

lemma two_rows_ne: "two_rows \<noteq> []"
  by (simp add: two_rows_def row_x_def row_y_def)

lemma two_rows_gain_a:
  assumes "class_names self = [0, 1]" and "''a'' \<in> set (categorical_feature_names self)"
  shows "information_gain self two_rows ''a'' = Inr (Scalar (Finite 1))"
proof -
  have "categorical_information_gain self two_rows ''a'' = Inr (Finite 1)"
    unfolding categorical_information_gain_value [OF two_rows_ne] assms(1)
    by (simp add: spec_categorical_entropy_def two_rows_def row_x_def row_y_def example_row_def count_eq_def cat_eq_def
          rows_with_label_def count_label_def log2_half)
  then show ?thesis using assms by (simp add: information_gain_def)
qed

lemma two_rows_gain_f:
  assumes "class_names self = [0, 1]" and "''f'' \<notin> set (categorical_feature_names self)"
    and "''f'' \<in> set (numerical_feature_names self)"
  shows "information_gain self two_rows ''f'' = Inr (Pair 1 (Some 1))"
proof -
  have g0: "spec_threshold_gain self two_rows ''f'' 0 = 0"
    by (simp add: spec_threshold_gain_def assms(1) spec_numerical_entropy_def
          two_rows_def row_x_def row_y_def example_row_def is_less_def is_more_def rows_with_label_def count_label_def)
  have g1: "spec_threshold_gain self two_rows ''f'' 1 = 1"
    by (simp add: spec_threshold_gain_def assms(1) spec_numerical_entropy_def
          two_rows_def row_x_def row_y_def example_row_def is_less_def is_more_def rows_with_label_def count_label_def
          log2_half)
  have ts: "thresholds (map fst two_rows) ''f'' = Inr [0, 1]"
    by (simp add: thresholds_def column_max_def List.map_filter_def two_rows_def row_x_def row_y_def example_row_def
          py_int_def upto01)
  have "numerical_information_gain self two_rows ''f'' = Inr (1, Some 1)"
    by (simp add: numerical_information_gain_def ts threshold_gain_spec [OF two_rows_ne] g0 g1)
  then show ?thesis using assms(2,3) by (simp add: information_gain_def)
qed

lemma example_self_simps:
  "class_names example_self = [0, 1]"
  "categorical_feature_names example_self = [''a'', ''b'']"
  "numerical_feature_names example_self = [''f'']"
  "options example_self = default_config"
  "feature_names example_self = [''a'', ''b'', ''f'']"
  by (simp_all add: example_self_def make_self_def two_rows_def)

lemma default_start: "start_gain (min_impurity_decrease default_config) = Scalar (Finite 0.05)"
  by (simp add: start_gain_def default_config_def)

lemma example_select_best:
  "select_best example_self two_rows [FeatureName ''a'', FeatureName ''f'']
     = Inr (Scalar (Finite 1), Some ''a'')"
  by (simp add: select_best_def two_rows_gain_a two_rows_gain_f example_self_simps default_start)

theorem best_feature_selection_witness:
  "select_best example_self two_rows [FeatureName ''a'', FeatureName ''f'']
     = Inr (Scalar (Finite 1), Some ''a'')
   \<and> (\<exists>i < length [FeatureName ''a'', FeatureName ''f'']. \<exists>s d.
         [FeatureName ''a'', FeatureName ''f''] ! i = FeatureName ''a''
         \<and> information_gain example_self two_rows ''a'' = Inr (Scalar (Finite 1))
         \<and> score (Scalar (Finite 1)) = Some s
         \<and> min_impurity_decrease (options example_self) = PyFloat d \<and> d < s
         \<and> (\<forall>j < i. \<forall>s'. entry_score example_self two_rows
               ([FeatureName ''a'', FeatureName ''f''] ! j) = Some s' \<longrightarrow> s' < s)
         \<and> (\<forall>j < length [FeatureName ''a'', FeatureName ''f'']. \<forall>s'.
               entry_score example_self two_rows ([FeatureName ''a'', FeatureName ''f''] ! j) = Some s'
               \<longrightarrow> s' \<le> s))"
  using best_feature_selection [OF example_select_best] example_select_best by blast

section \<open>Subsets of at most one row\<close>

lemma spec_categorical_entropy_small:
  assumes "length X \<le> 1"
  shows "spec_categorical_entropy X name = 0"
proof -
  have "(if count_eq X name v = 0 then 0
         else real (count_eq X name v) / real (length X)
              * log 2 (real (count_eq X name v) / real (length X))) = 0" for v
  proof (cases "count_eq X name v = 0")
    case True
    then show ?thesis by simp
  next
    case False
    with count_eq_le [of X name v] assms have "count_eq X name v = 1" "length X = 1" by linarith+
    then show ?thesis by simp
  qed
  then show ?thesis by (simp add: spec_categorical_entropy_def)
qed

lemma ratio_term_small:
  assumes "m \<le> n" and "n \<le> (1::nat)"
  shows "(if real m = 0 then 0 else real m / real n * log 2 (real m / real n)) = 0"
proof (cases "m = 0")
  case True
  then show ?thesis by simp
next
  case False
  with assms have "m = 1" "n = 1" by linarith+
  then show ?thesis by simp
qed

lemma spec_numerical_entropy_small:
  assumes "length X \<le> 1"
  shows "spec_numerical_entropy X name t = 0"
proof -
  have a: "(if real (length (filter (is_less name t) X)) = 0 then 0
            else real (length (filter (is_less name t) X)) / real (length X)
                 * log 2 (real (length (filter (is_less name t) X)) / real (length X))) = 0"
    using assms by (intro ratio_term_small) simp_all
  have b: "(if real (length (filter (is_more name t) X)) = 0 then 0
            else real (length (filter (is_more name t) X)) / real (length X)
                 * log 2 (real (length (filter (is_more name t) X)) / real (length X))) = 0"
    using assms by (intro ratio_term_small) simp_all
  show ?thesis unfolding spec_numerical_entropy_def Let_def a b by simp
qed

lemma rows_with_label_length: "length (rows_with_label data c) \<le> length data"
  by (simp add: rows_with_label_def)

lemma sum_list_zero: "(\<And>x. x \<in> set xs \<Longrightarrow> f x = (0::real)) \<Longrightarrow> (\<Sum>x\<leftarrow>xs. f x) = 0"
  by (induction xs) simp_all

lemma single_row_categorical_gain:
  assumes "length data = 1" and "name \<in> set (categorical_feature_names self)"
    and "class_names self \<noteq> []"
  shows "information_gain self data name = Inr (Scalar (Finite 0))"
proof -
  from assms(1) have ne: "data \<noteq> []" by auto
  have "length (rows_with_label data c) \<le> 1" for c
    using rows_with_label_length [of data c] assms(1) by simp
  then have "spec_categorical_entropy (rows_with_label data c) name = 0" for c
    by (rule spec_categorical_entropy_small)
  moreover have "spec_categorical_entropy (map fst data) name = 0"
    using assms(1) by (simp add: spec_categorical_entropy_small)
  ultimately have "categorical_information_gain self data name = Inr (Finite 0)"
    unfolding categorical_information_gain_value [OF ne] by simp
  then show ?thesis using assms(2,3) by (simp add: information_gain_def)
qed

lemma single_row_threshold_gain:
  assumes "length data = 1"
  shows "spec_threshold_gain self data name t = 0"
proof -
  have "length (rows_with_label data c) \<le> 1" for c
    using rows_with_label_length [of data c] assms(1) by simp
  then have "spec_numerical_entropy (rows_with_label data c) name t = 0" for c
    by (rule spec_numerical_entropy_small)
  moreover have "spec_numerical_entropy (map fst data) name t = 0"
    using assms(1) by (simp add: spec_numerical_entropy_small)
  ultimately show ?thesis by (simp add: spec_threshold_gain_def)
qed

lemma single_row_numerical_gain:
  assumes "length data = 1" and "name \<notin> set (categorical_feature_names self)"
    and "name \<in> set (numerical_feature_names self)"
    and "num_val (fst (hd data)) name = Some v"
  shows "information_gain self data name = Inr (Pair 0 None)"
proof -
  from assms(1) have ne: "data \<noteq> []" by auto
  from assms(1,4) have "column_max (map fst data) name = Some v"
    by (cases data) (simp_all add: column_max_def List.map_filter_def)
  then have run: "numerical_information_gain self data name
      = threshold_loop self data name [0..py_int v - 1] (0, None)"
    by (simp add: numerical_information_gain_def thresholds_def)
  from threshold_loop_result [OF ne, of self name "[0..py_int v - 1]" 0 None]
  have "threshold_loop self data name [0..py_int v - 1] (0, None) = Inr (0, None)"
    by (auto simp: single_row_threshold_gain [OF assms(1)])
  with run show ?thesis using assms(2,3) by (simp add: information_gain_def)
qed

section \<open>The node builder, step by step\<close>

lemma generate_node_leaf:
  assumes "select_best self data available = Inr (bg, bf)" and "bf = None \<or> bf = Some []"
  shows "generate_node (Suc k) self data fv available sc =
     Inr (Node bf fv (length data) (node_counts self data) (node_label self data) [], sc)"
  using assms by (auto simp: node_counts_def node_label_def split: prod.splits)

lemma generate_node_small:
  assumes "select_best self data available = Inr (bg, Some name)" and "name \<noteq> []"
    and "\<not> min_samples_split (options self) \<le> int (length data)"
  shows "generate_node (Suc k) self data fv available sc =
     Inr (Node (Some name) fv (length data) (node_counts self data) (node_label self data) [],
          snd (unlock name (after_removal self name available) sc))"
proof -
  from select_best_Some [OF assms(1)] have "FeatureName name \<in> set available" by simp
  then show ?thesis
    using assms
    by (auto simp: node_counts_def node_label_def after_removal_def py_remove_def split: prod.splits)
qed

lemma generate_node_inner:
  assumes "select_best self data available = Inr (bg, Some name)" and "name \<noteq> []"
    and "min_samples_split (options self) \<le> int (length data)"
  shows "generate_node (Suc k) self data fv available sc =
     (case split self data name bg of
        Inl e \<Rightarrow> Inl e
      | Inr parts \<Rightarrow>
          (case build_children k self parts (fst (unlock name (after_removal self name available) sc))
                  (snd (unlock name (after_removal self name available) sc)) of
             Inl e \<Rightarrow> Inl e
           | Inr (children, sc') \<Rightarrow>
               Inr (Node (Some name) fv (length data) (node_counts self data) (node_label self data)
                      children, sc')))"
proof -
  from select_best_Some [OF assms(1)] have "FeatureName name \<in> set available" by simp
  then show ?thesis
    using assms
    by (auto simp: node_counts_def node_label_def after_removal_def py_remove_def
          split: prod.splits sum.splits)
qed

lemma generate_node_cases:
  assumes "generate_node (Suc k) self data fv available sc = Inr (node, sc')"
  obtains (leaf) bg bf where "select_best self data available = Inr (bg, bf)"
      "bf = None \<or> bf = Some []"
      "node = Node bf fv (length data) (node_counts self data) (node_label self data) []"
      "sc' = sc"
  | (small) bg name where "select_best self data available = Inr (bg, Some name)" "name \<noteq> []"
      "\<not> min_samples_split (options self) \<le> int (length data)"
      "node = Node (Some name) fv (length data) (node_counts self data) (node_label self data) []"
      "sc' = snd (unlock name (after_removal self name available) sc)"
  | (inner) bg name parts children where
      "select_best self data available = Inr (bg, Some name)" "name \<noteq> []"
      "min_samples_split (options self) \<le> int (length data)"
      "split self data name bg = Inr parts"
      "build_children k self parts (fst (unlock name (after_removal self name available) sc))
         (snd (unlock name (after_removal self name available) sc)) = Inr (children, sc')"
      "node = Node (Some name) fv (length data) (node_counts self data) (node_label self data) children"
proof -
  from assms obtain bg bf where sb: "select_best self data available = Inr (bg, bf)"
    by (cases "select_best self data available") auto
  show thesis
  proof (cases "bf = None \<or> bf = Some []")
    case True
    with generate_node_leaf [OF sb True, of k fv sc] assms leaf [OF sb True] show thesis by simp
  next
    case False
    then obtain name where bf: "bf = Some name" and ne: "name \<noteq> []" by auto
    note sb' = sb [unfolded bf]
    show thesis
    proof (cases "min_samples_split (options self) \<le> int (length data)")
      case False
      with generate_node_small [OF sb' ne False, of k fv sc] assms small [OF sb' ne False]
      show thesis by simp
    next
      case True
      from generate_node_inner [OF sb' ne True, of k fv sc] assms
      obtain parts children where
        "split self data name bg = Inr parts"
        "build_children k self parts (fst (unlock name (after_removal self name available) sc))
           (snd (unlock name (after_removal self name available) sc)) = Inr (children, sc')"
        "node = Node (Some name) fv (length data) (node_counts self data) (node_label self data) children"
        by (auto split: sum.splits)
      with inner [OF sb' ne True] show thesis by blast
    qed
  qed
qed

lemma build_children_Cons_cases:
  assumes "build_children k self ((x, v) # rest) available sc = Inr (ns, sc')"
  obtains child sc1 children where
    "generate_node k self x (Some v) available (if truthy sc then sc else None) = Inr (child, sc1)"
    "build_children k self rest available (if truthy sc then sc1 else sc) = Inr (children, sc')"
    "ns = child # children"
  using assms by (auto split: sum.splits if_splits)

lemma generate_node_zero: "generate_node 0 self data fv available sc = Inl OutOfFuel"
  by simp

lemma build_children_Nil: "build_children k self [] available sc = Inr ([], sc)"
  by simp

lemma build_children_Cons:
  "build_children k self ((x, v) # rest) available sc =
     (case generate_node k self x (Some v) available (if truthy sc then sc else None) of
        Inl e \<Rightarrow> Inl e
      | Inr (child, sc1) \<Rightarrow>
          (case build_children k self rest available (if truthy sc then sc1 else sc) of
             Inl e \<Rightarrow> Inl e
           | Inr (children, sc2) \<Rightarrow> Inr (child # children, sc2)))"
  by (simp split: sum.splits prod.splits)

declare generate_node.simps [simp del]

declare build_children.simps [simp del]





section \<open>What a call leaves of the registry\<close>

lemma pop_all_pop_all: "pop_all A (pop_all B sc) = pop_all (A \<union> B) sc"
  by (cases sc) (auto simp: pop_all_def intro: filter_cong)

lemma pop_all_empty [simp]: "pop_all {} sc = sc"
  by (cases sc) (simp_all add: pop_all_def)

lemma pop_all_not_truthy: "\<not> truthy sc \<Longrightarrow> pop_all A sc = sc"
  by (cases sc) (auto simp: pop_all_def truthy_def)

lemma filter_absent_key: "map_of reg k = None \<Longrightarrow> filter (\<lambda>kv. fst kv \<noteq> k) reg = reg"
  by (induction reg) (auto split: if_splits)

lemma unlock_registry: "snd (unlock name available sc) = pop_all {name} sc"
  by (auto simp: unlock_def pop_all_def filter_absent_key split: option.splits)

lemma chosen_features_childless:
  "chosen_features (Node sf fv n d l []) = (case sf of None \<Rightarrow> [] | Some name \<Rightarrow> if name = [] then [] else [name])"
  by simp

lemma registry_after:
  "(\<forall>(self :: 'l decision_tree) data fv available sc node sc'.
      generate_node k self data fv available sc = Inr (node, sc')
      \<longrightarrow> sc' = pop_all (set (chosen_features node)) sc)
   \<and> (\<forall>(self :: 'l decision_tree) parts available sc children sc'.
      build_children k self parts available sc = Inr (children, sc')
      \<longrightarrow> sc' = pop_all (\<Union>c \<in> set children. set (chosen_features c)) sc)"
proof (induction k)
  case 0
  have "sc' = pop_all (\<Union>c \<in> set children. set (chosen_features c)) sc"
    if "build_children 0 self parts available sc = Inr (children, sc')"
    for self :: "'l decision_tree" and parts available sc children sc'
    using that
  proof (induction parts arbitrary: sc children)
    case Nil
    then show ?case by (simp add: build_children_Nil)
  next
    case (Cons p parts)
    then show ?case by (cases p) (simp add: build_children_Cons generate_node_zero)
  qed
  then show ?case by (auto simp: generate_node_zero)
next
  case (Suc k)
  from Suc.IH have IHc: "\<And>(self :: 'l decision_tree) parts available sc children sc'.
      build_children k self parts available sc = Inr (children, sc')
      \<Longrightarrow> sc' = pop_all (\<Union>c \<in> set children. set (chosen_features c)) sc" by blast
  have gen: "sc' = pop_all (set (chosen_features node)) sc"
    if run: "generate_node (Suc k) self data fv available sc = Inr (node, sc')"
    for self :: "'l decision_tree" and data fv available sc node sc'
    using run
  proof (cases rule: generate_node_cases)
    case (leaf bg bf)
    then show ?thesis by auto
  next
    case (small bg name)
    then show ?thesis by (simp add: unlock_registry)
  next
    case (inner bg name parts children)
    from IHc [OF inner(5)] inner(2,6) show ?thesis
      by (simp add: unlock_registry pop_all_pop_all Un_commute)
  qed
  have "sc' = pop_all (\<Union>c \<in> set children. set (chosen_features c)) sc"
    if "build_children (Suc k) self parts available sc = Inr (children, sc')"
    for self :: "'l decision_tree" and parts available sc children sc'
    using that
  proof (induction parts arbitrary: sc children)
    case Nil
    then show ?case by (simp add: build_children_Nil)
  next
    case (Cons p parts)
    obtain x v where p: "p = (x, v)" by (cases p)
    from Cons.prems [unfolded p] show ?case
    proof (cases rule: build_children_Cons_cases)
      case (1 child sc1 rest)
      show ?thesis
      proof (cases "truthy sc")
        case True
        with 1 gen [of self x "Some v" available sc child sc1]
        have a: "sc1 = pop_all (set (chosen_features child)) sc" by simp
        from 1 True Cons.IH [of sc1 rest]
        have "sc' = pop_all (\<Union>c \<in> set rest. set (chosen_features c)) sc1" by simp
        with a 1(3) show ?thesis by (simp add: pop_all_pop_all Un_commute)
      next
        case False
        with 1 Cons.IH [of sc rest]
        have "sc' = pop_all (\<Union>c \<in> set rest. set (chosen_features c)) sc" by simp
        with False show ?thesis by (simp add: pop_all_not_truthy)
      qed
    qed
  qed
  with gen show ?case by blast
qed

lemma generate_node_registry:
  "generate_node k self data fv available sc = Inr (node, sc')
   \<Longrightarrow> sc' = pop_all (set (chosen_features node)) sc"
  using registry_after [of k] by blast

lemma build_children_registry:
  "build_children k self parts available sc = Inr (children, sc')
   \<Longrightarrow> sc' = pop_all (\<Union>c \<in> set children. set (chosen_features c)) sc"
  using registry_after [of k] by blast

text \<open>The empty name never passes \<^verbatim>\<open>if best_feature:\<close>, so its pair is never popped.\<close>

lemma chosen_features_nonempty: "[] \<notin> set (chosen_features node)"
  by (induction node) (auto split: option.splits if_splits)

lemma empty_name_pair_stays:
  assumes "fit fuel cfg columns data categorical numerical (Some reg) = Inr (tree, special_cases')"
  shows "\<exists>reg'. special_cases' = Some reg'
     \<and> filter (\<lambda>kv. fst kv = []) reg' = filter (\<lambda>kv. fst kv = []) reg"
proof -
  from assms obtain available where
    "generate_node fuel (make_self cfg columns data categorical numerical) data None available (Some reg)
       = Inr (tree, special_cases')"
    by (auto simp: fit_def Let_def split: sum.splits if_splits)
  from generate_node_registry [OF this]
  have sc: "special_cases' = Some (filter (\<lambda>kv. fst kv \<notin> set (chosen_features tree)) reg)"
    by (simp add: pop_all_def)
  have "filter (\<lambda>kv. fst kv = []) (filter (\<lambda>kv. fst kv \<notin> set (chosen_features tree)) reg)
      = filter (\<lambda>kv. fst kv = []) reg"
    using chosen_features_nonempty [of tree] by (induction reg) auto
  with sc show ?thesis by simp
qed

text \<open>
  C2, as amended. \<^verbatim>\<open>fit\<close> hands the caller's registry itself to the node builder. When
  \<^verbatim>\<open>fit\<close> returns, the caller's mapping holds exactly those of its pairs whose key is not
  a non-empty name chosen as a split feature somewhere in the tree, in their order. The
  pair of every chosen prerequisite with a non-empty name is gone; a pair whose key is the
  empty name stays, because \<^verbatim>\<open>if best_feature:\<close> is false for it.
\<close>

theorem fit_consumes_registry:
  assumes "fit fuel cfg columns data categorical numerical (Some reg) = Inr (tree, special_cases')"
  shows "special_cases' = Some (filter (\<lambda>kv. fst kv \<notin> set (chosen_features tree)) reg)"
proof -
  from assms obtain available where
    "generate_node fuel (make_self cfg columns data categorical numerical) data None available (Some reg)
       = Inr (tree, special_cases')"
    by (auto simp: fit_def Let_def split: sum.splits if_splits)
  from generate_node_registry [OF this] show ?thesis by (simp add: pop_all_def)
qed


section \<open>fit on the examples\<close>

lemma example_make_self:
  "make_self default_config [''a'', ''b'', ''f''] two_rows [''a'', ''b''] [''f''] = example_self"
  by (simp add: example_self_def)

lemma example_split:
  "split example_self two_rows ''a'' (Scalar (Finite 1)) =
     Inr [([(row_x, 0)], CatValue (Some ''x'')), ([(row_y, 1)], CatValue (Some ''y''))]"
  by (simp add: split_def example_self_simps categorical_split_def column_values_def two_rows_def
        row_x_def row_y_def example_row_def cat_eq_def)

lemma example_leaf_select:
  assumes "length data = 1" and "num_val (fst (hd data)) ''f'' = Some v"
  shows "select_best example_self data [FeatureName ''f'', FeatureName ''b'']
     = Inr (Scalar (Finite 0.05), None)"
  using assms
  by (simp add: select_best_def single_row_numerical_gain [where v = v] single_row_categorical_gain
        example_self_simps default_start)

lemma example_children:
  "build_children (Suc 0) example_self
     [([(row_x, 0)], CatValue (Some ''x'')), ([(row_y, 1)], CatValue (Some ''y''))]
     [FeatureName ''f'', FeatureName ''b''] (Some []) =
   Inr ([Node None (Some (CatValue (Some ''x''))) 1 [1, 0] (Some 0) [],
         Node None (Some (CatValue (Some ''y''))) 1 [0, 1] (Some 1) []], Some [])"
proof -
  have x: "select_best example_self [(row_x, 0::int)] [FeatureName ''f'', FeatureName ''b'']
      = Inr (Scalar (Finite 0.05), None)"
    by (rule example_leaf_select [where v = 0]) (simp_all add: row_x_def example_row_def)
  have y: "select_best example_self [(row_y, 1::int)] [FeatureName ''f'', FeatureName ''b'']
      = Inr (Scalar (Finite 0.05), None)"
    by (rule example_leaf_select [where v = 2]) (simp_all add: row_y_def example_row_def)
  have cx: "node_counts example_self [(row_x, 0)] = [1, 0]" "node_label example_self [(row_x, 0)] = Some 0"
    by (simp_all add: node_counts_def node_label_def example_self_simps count_label_def)
  have cy: "node_counts example_self [(row_y, 1)] = [0, 1]" "node_label example_self [(row_y, 1)] = Some 1"
    by (simp_all add: node_counts_def node_label_def example_self_simps count_label_def)
  show ?thesis
    by (simp add: build_children_Cons build_children_Nil truthy_def
          generate_node_leaf [OF x] generate_node_leaf [OF y] cx cy)
qed

lemma example_root:
  "generate_node (Suc (Suc 0)) example_self two_rows None [FeatureName ''a'', FeatureName ''f'']
     (Some example_registry) = Inr (example_tree, Some [])"
proof -
  have ms: "min_samples_split (options example_self) \<le> int (length two_rows)"
    by (simp add: example_self_simps default_config_def two_rows_def)
  have ul: "unlock ''a'' (after_removal example_self ''a'' [FeatureName ''a'', FeatureName ''f''])
      (Some example_registry) = ([FeatureName ''f'', FeatureName ''b''], Some [])"
    by (simp add: unlock_def after_removal_def example_self_simps example_registry_def entry_of_def)
  have c: "node_counts example_self two_rows = [1, 1]" "node_label example_self two_rows = Some 0"
    by (simp_all add: node_counts_def node_label_def example_self_simps count_label_def two_rows_def)
  have len: "length two_rows = 2" by (simp add: two_rows_def)
  have ne: "''a'' \<noteq> []" by simp
  show ?thesis
    unfolding generate_node_inner [OF example_select_best ne ms]
    by (simp add: example_split ul example_children c len example_tree_def)
qed

lemma example_fit:
  "fit (Suc (Suc 0)) default_config [''a'', ''b'', ''f''] two_rows [''a'', ''b''] [''f'']
     (Some example_registry) = Inr (example_tree, Some [])"
  by (simp add: fit_def example_make_self example_self_simps example_registry_def py_remove_def
        example_root [unfolded example_registry_def])


theorem fit_consumes_registry_witness:
  "fit (Suc (Suc 0)) default_config [''a'', ''b'', ''f''] two_rows [''a'', ''b''] [''f'']
     (Some example_registry) = Inr (example_tree, Some [])
   \<and> Some [] = Some (filter (\<lambda>kv. fst kv \<notin> set (chosen_features example_tree)) example_registry)"
  using fit_consumes_registry [OF example_fit] example_fit by simp

text \<open>
  C2 as stated fails: with the registry \<open>{a: b}\<close> and \<open>a\<close> chosen at the root, the caller's
  mapping is empty after \<^verbatim>\<open>fit\<close>.
\<close>

theorem fit_changes_registry_counterexample:
  "fit (Suc (Suc 0)) default_config [''a'', ''b'', ''f''] two_rows [''a'', ''b''] [''f'']
     (Some example_registry) = Inr (example_tree, Some [])
   \<and> Some [] \<noteq> Some example_registry"
  using example_fit by (simp add: example_registry_def)

lemma generate_node_error:
  "select_best self data available = Inl e \<Longrightarrow> generate_node (Suc k) self data fv available sc = Inl e"
  by (simp add: generate_node.simps)

text \<open>
  C1 fails for a registry value that is a list. \<^verbatim>\<open>fit\<close> removes the names of the list one
  by one, but the node builder appends the list itself as one entry of the eligible list;
  the children then fail on that entry. Here the registry is \<open>{a: [b, f]}\<close>.
\<close>

theorem list_dependents_appended_whole:
  "unlock ''a'' [] (Some list_registry) = ([NameList [''b'', ''f'']], Some [])
   \<and> remove_dependents list_registry [FeatureName ''a'', FeatureName ''b'', FeatureName ''f'']
       = Inr [FeatureName ''a'']
   \<and> fit (Suc (Suc 0)) default_config [''a'', ''b'', ''f''] two_rows [''a'', ''b''] [''f'']
       (Some list_registry) = Inl ValueError"
proof -
  have ul: "unlock ''a'' [] (Some list_registry) = ([NameList [''b'', ''f'']], Some [])"
    by (simp add: unlock_def list_registry_def entry_of_def)
  have rd: "remove_dependents list_registry [FeatureName ''a'', FeatureName ''b'', FeatureName ''f'']
       = Inr [FeatureName ''a'']"
    by (simp add: list_registry_def py_remove_def)
  have sb: "select_best example_self two_rows [FeatureName ''a'']
      = Inr (Scalar (Finite 1), Some ''a'')"
    by (simp add: select_best_def two_rows_gain_a example_self_simps default_start)
  have ne: "''a'' \<noteq> []" by simp
  have ms: "min_samples_split (options example_self) \<le> int (length two_rows)"
    by (simp add: example_self_simps default_config_def two_rows_def)
  have ar: "after_removal example_self ''a'' [FeatureName ''a''] = []"
    by (simp add: after_removal_def example_self_simps)
  have child: "generate_node (Suc 0) example_self x fv [NameList [''b'', ''f'']] None = Inl ValueError"
    for x fv
    by (rule generate_node_error) (simp add: select_best_def)
  have root: "generate_node (Suc (Suc 0)) example_self two_rows None [FeatureName ''a'']
      (Some list_registry) = Inl ValueError"
    unfolding generate_node_inner [OF sb ne ms]
    by (simp add: example_split ar ul build_children_Cons truthy_def child)
  have "fit (Suc (Suc 0)) default_config [''a'', ''b'', ''f''] two_rows [''a'', ''b''] [''f'']
       (Some list_registry) = Inl ValueError"
    using rd root
    by (simp add: fit_def example_make_self example_self_simps list_registry_def)
  with ul rd show ?thesis by simp
qed

lemma nan_self_simps:
  "class_names nan_self = [0, 1]"
  "categorical_feature_names nan_self = [''a'']"
  "numerical_feature_names nan_self = []"
  "options nan_self = default_config"
  "feature_names nan_self = [''a'']"
  by (simp_all add: nan_self_def make_self_def nan_rows_def)

lemma nan_fit:
  "fit (Suc (Suc 0)) default_config [''a''] nan_rows [''a''] [] None = Inr (nan_tree, None)"
proof -
  have ne: "nan_rows \<noteq> []" by (simp add: nan_rows_def)
  have "categorical_information_gain nan_self nan_rows ''a'' = Inr (Finite (1 / 2))"
    unfolding categorical_information_gain_value [OF ne] nan_self_simps
    by (simp add: spec_categorical_entropy_def nan_rows_def example_row_def count_eq_def cat_eq_def
          rows_with_label_def count_label_def log2_half)
  then have sb: "select_best nan_self nan_rows [FeatureName ''a'']
      = Inr (Scalar (Finite (1 / 2)), Some ''a'')"
    by (simp add: select_best_def information_gain_def nan_self_simps default_start)
  have nm: "''a'' \<noteq> []" by simp
  have ms: "min_samples_split (options nan_self) \<le> int (length nan_rows)"
    by (simp add: nan_self_simps default_config_def nan_rows_def)
  have sp: "split nan_self nan_rows ''a'' (Scalar (Finite (1 / 2))) =
      Inr [([(example_row [(''a'', ''x'')] [], 0)], CatValue (Some ''x'')), ([], CatValue None)]"
    by (simp add: split_def nan_self_simps categorical_split_def column_values_def nan_rows_def
          example_row_def cat_eq_def)
  have ul: "unlock ''a'' (after_removal nan_self ''a'' [FeatureName ''a'']) None = ([], None)"
    by (simp add: unlock_def after_removal_def nan_self_simps)
  have leaf: "select_best nan_self x [] = Inr (Scalar (Finite 0.05), None)" for x
    by (simp add: select_best_def nan_self_simps default_start)
  have c: "node_counts nan_self nan_rows = [1, 1]" "node_label nan_self nan_rows = Some 0"
    "node_counts nan_self [(example_row [(''a'', ''x'')] [], 0)] = [1, 0]"
    "node_label nan_self [(example_row [(''a'', ''x'')] [], 0)] = Some 0"
    "node_counts nan_self [] = [0, 0]" "node_label nan_self [] = Some 0"
    by (simp_all add: node_counts_def node_label_def nan_self_simps count_label_def nan_rows_def)
  have len: "length nan_rows = 2" by (simp add: nan_rows_def)
  have "generate_node (Suc (Suc 0)) nan_self nan_rows None [FeatureName ''a''] None
      = Inr (nan_tree, None)"
    unfolding generate_node_inner [OF sb nm ms]
    by (simp add: sp ul build_children_Cons build_children_Nil truthy_def
          generate_node_leaf [OF leaf] c len nan_tree_def)
  then show ?thesis
    by (simp add: fit_def nan_self_def [symmetric] nan_self_simps)
qed

text \<open>
  On the empty subset the gain of a categorical feature is nan, which no comparison
  selects: the node is a leaf without samples.
\<close>

lemma empty_subset_gain:
  assumes "name \<in> set (categorical_feature_names self)" and "class_names self \<noteq> []"
  shows "information_gain self [] name = Inr (Scalar NaN)"
proof -
  have loop: "cat_gain_loop ([] :: 'a dataset) name cs NaN = Inr NaN" for cs :: "'a list"
    by (induction cs) (simp_all add: categorical_feature_entropy_spec)
  obtain c cs where cn: "class_names self = c # cs"
    using assms(2) by (cases "class_names self") simp_all
  have "categorical_information_gain self [] name = Inr NaN"
    by (simp add: categorical_information_gain_def categorical_feature_entropy_spec cn
          class_share_def loop)
  then show ?thesis using assms by (simp add: information_gain_def)
qed

lemma empty_subset_leaf:
  "generate_node (Suc k) example_self [] fv [FeatureName ''b''] None =
     Inr (Node None fv 0 [0, 0] (Some 0) [], None)"
proof -
  have "select_best example_self [] [FeatureName ''b''] = Inr (Scalar (Finite 0.05), None)"
    by (simp add: select_best_def empty_subset_gain example_self_simps default_start)
  from generate_node_leaf [OF this] show ?thesis
    by (simp add: node_counts_def node_label_def example_self_simps count_label_def)
qed

section \<open>Properties of every node\<close>

lemma build_children_all:
  assumes "\<And>x v sc child sc1. (x, v) \<in> set parts
      \<Longrightarrow> generate_node k self x (Some v) available sc = Inr (child, sc1) \<Longrightarrow> P child"
    and "build_children k self parts available sc0 = Inr (children, sc')"
  shows "\<forall>c \<in> set children. P c"
  using assms
proof (induction parts arbitrary: sc0 children)
  case Nil
  then show ?case by (simp add: build_children_Nil)
next
  case (Cons p parts)
  obtain x v where p: "p = (x, v)" by (cases p)
  from Cons.prems(2) [unfolded p] show ?case
  proof (cases rule: build_children_Cons_cases)
    case (1 child sc1 rest)
    from 1(1) Cons.prems(1) [of x v] p have "P child" by simp
    moreover have "\<forall>c \<in> set rest. P c"
    proof (rule Cons.IH [OF _ 1(2)])
      fix x' v' s c s1
      assume "(x', v') \<in> set parts"
        and "generate_node k self x' (Some v') available s = Inr (c, s1)"
      then show "P c" using Cons.prems(1) [of x' v' s c s1] by simp
    qed
    ultimately show ?thesis using 1(3) by simp
  qed
qed

lemma split_parts_subset:
  assumes "split self data name bg = Inr parts" and "(x, v) \<in> set parts"
  shows "set x \<subseteq> set data"
  using assms
  by (auto simp: split_def categorical_split_def numerical_split_def
        split: if_splits gain.splits)

lemma distribution_loop_counts:
  "fst (distribution_loop data cs (d, l, m)) = d @ map (count_label data) cs"
  by (induction cs arbitrary: d l m) (simp_all add: Let_def)

lemma node_counts_map: "node_counts self data = map (count_label data) (class_names self)"
  by (simp add: node_counts_def distribution_loop_counts)

lemma indicator_sum:
  "distinct cs \<Longrightarrow> (\<Sum>c\<leftarrow>cs. if x = c then 1 else 0) = (if x \<in> set cs then 1 else (0::nat))"
  by (induction cs) auto

lemma sum_count_label:
  "distinct cs \<Longrightarrow> snd ` set data \<subseteq> set cs \<Longrightarrow> (\<Sum>c\<leftarrow>cs. count_label data c) = length data"
proof (induction data)
  case Nil
  then show ?case by (simp add: count_label_def)
next
  case (Cons p data)
  have "count_label (p # data) c = (if snd p = c then 1 else 0) + count_label data c" for c
    by (simp add: count_label_def)
  then have "(\<Sum>c\<leftarrow>cs. count_label (p # data) c)
      = (\<Sum>c\<leftarrow>cs. if snd p = c then 1 else 0) + (\<Sum>c\<leftarrow>cs. count_label data c)"
    by (simp add: sum_list_addf)
  with Cons show ?case by (simp add: indicator_sum)
qed

lemma generate_node_counts:
  assumes "generate_node k self data fv available sc = Inr (node, sc')"
    and "distinct (class_names self)" and "snd ` set data \<subseteq> set (class_names self)"
  shows "(\<forall>n \<in> set (nodes node). sum_list (distribution n) = samples n) \<and> samples node = length data"
  using assms(1,3)
proof (induction k arbitrary: data fv available sc node sc')
  case 0
  then show ?case by (simp add: generate_node_zero)
next
  case (Suc k)
  have total: "sum_list (node_counts self data) = length data"
    using assms(2) Suc.prems(2) by (simp add: node_counts_map sum_count_label)
  from Suc.prems(1) show ?case
  proof (cases rule: generate_node_cases)
    case (leaf bg bf)
    with total show ?thesis by simp
  next
    case (small bg name)
    with total show ?thesis by simp
  next
    case (inner bg name parts children)
    have "\<forall>c \<in> set children. \<forall>n \<in> set (nodes c). sum_list (distribution n) = samples n"
    proof (rule build_children_all [OF _ inner(5)])
      fix x v sc0 child sc1
      assume mem: "(x, v) \<in> set parts"
        and run: "generate_node k self x (Some v) (fst (unlock name (after_removal self name available) sc)) sc0
          = Inr (child, sc1)"
      from split_parts_subset [OF inner(4) mem] Suc.prems(2)
      have "snd ` set x \<subseteq> set (class_names self)" by blast
      from Suc.IH [OF run this] show "\<forall>n \<in> set (nodes child). sum_list (distribution n) = samples n"
        by simp
    qed
    with inner(6) total show ?thesis by auto
  qed
qed

text \<open>
  C5. In the tree that \<^verbatim>\<open>fit\<close> returns, the entries of every node's distribution add up
  to the node's number of samples, and the root's number of samples is the number of rows
  of the training data.
\<close>

theorem distribution_sums_to_samples:
  assumes "fit fuel cfg columns data categorical numerical special_cases = Inr (tree, special_cases')"
  shows "(\<forall>n \<in> set (nodes tree). sum_list (distribution n) = samples n) \<and> samples tree = length data"
proof -
  let ?self = "make_self cfg columns data categorical numerical"
  from assms obtain available where
    run: "generate_node fuel ?self data None available special_cases = Inr (tree, special_cases')"
    by (auto simp: fit_def Let_def split: sum.splits if_splits option.splits)
  have "distinct (class_names ?self)" and "snd ` set data \<subseteq> set (class_names ?self)"
    by (simp_all add: make_self_def)
  from generate_node_counts [OF run this] show ?thesis .
qed

theorem distribution_sums_to_samples_witness:
  "fit (Suc (Suc 0)) default_config [''a'', ''b'', ''f''] two_rows [''a'', ''b''] [''f'']
     (Some example_registry) = Inr (example_tree, Some [])
   \<and> list_all (\<lambda>n. sum_list (distribution n) = samples n) (nodes example_tree)
   \<and> samples example_tree = length two_rows"
  using distribution_sums_to_samples [OF example_fit] example_fit
  unfolding list_all_iff by blast


section \<open>No empty subset without missing values\<close>

lemma complete_subset:
  "complete categorical numerical data \<Longrightarrow> set x \<subseteq> set data \<Longrightarrow> complete categorical numerical x"
  by (auto simp: complete_def list_all_iff)

lemma numerical_gain_Some:
  assumes "data \<noteq> []" and "numerical_information_gain self data name = Inr (g, Some t)"
  shows "spec_threshold_gain self data name t = g \<and> 0 < g"
proof -
  from assms(2) obtain ts where
    run: "threshold_loop self data name ts (0, None) = Inr (g, Some t)"
    by (cases "thresholds (map fst data) name") (simp_all add: numerical_information_gain_def)
  from threshold_loop_result [OF assms(1), of self name ts 0 None] run show ?thesis by auto
qed

lemma numerical_gain_None:
  assumes "data \<noteq> []" and "numerical_information_gain self data name = Inr (g, None)"
  shows "g = 0"
proof -
  from assms(2) obtain ts where
    run: "threshold_loop self data name ts (0, None) = Inr (g, None)"
    by (cases "thresholds (map fst data) name") (simp_all add: numerical_information_gain_def)
  from threshold_loop_result [OF assms(1), of self name ts 0 None] run show ?thesis by auto
qed

lemma ratio_term_all: "(if real n = 0 then 0 else real n / real n * log 2 (real n / real n)) = 0"
  by simp

lemma one_sided_entropy:
  assumes "filter (is_less name t) X = [] \<or> filter (is_more name t) X = []"
    and "\<forall>r \<in> set X. num_val r name \<noteq> None"
  shows "spec_numerical_entropy X name t = 0"
proof -
  have either: "is_less name t r \<or> is_more name t r" if "r \<in> set X" for r
    using that assms(2) by (auto simp: is_less_def is_more_def split: option.splits)
  from assms(1) show ?thesis
  proof
    assume less: "filter (is_less name t) X = []"
    then have "\<forall>r \<in> set X. is_more name t r" using either by (auto simp: filter_empty_conv)
    then have "filter (is_more name t) X = X" by simp
    with less show ?thesis by (simp add: spec_numerical_entropy_def Let_def)
  next
    assume more: "filter (is_more name t) X = []"
    then have "\<forall>r \<in> set X. is_less name t r" using either by (auto simp: filter_empty_conv)
    then have "filter (is_less name t) X = X" by simp
    with more show ?thesis by (simp add: spec_numerical_entropy_def Let_def)
  qed
qed

lemma one_sided_gain:
  assumes "filter (\<lambda>p. is_less name t (fst p)) data = [] \<or> filter (\<lambda>p. is_more name t (fst p)) data = []"
    and "\<forall>p \<in> set data. num_val (fst p) name \<noteq> None"
  shows "spec_threshold_gain self data name t = 0"
proof -
  have side: "filter (is_less name t) X = [] \<or> filter (is_more name t) X = []"
    if "set X \<subseteq> fst ` set data" for X
    using assms(1) that by (auto simp: filter_empty_conv)
  have vals: "\<forall>r \<in> set X. num_val r name \<noteq> None" if "set X \<subseteq> fst ` set data" for X
    using assms(2) that by auto
  have whole: "spec_numerical_entropy (map fst data) name t = 0"
    by (rule one_sided_entropy [OF side vals]) simp_all
  have part: "spec_numerical_entropy (rows_with_label data c) name t = 0" for c
    by (rule one_sided_entropy [OF side vals]) (auto simp: rows_with_label_def)
  show ?thesis by (simp add: spec_threshold_gain_def whole part)
qed

lemma split_parts_nonempty:
  assumes sb: "select_best self data available = Inr (bg, Some name)"
    and sp: "split self data name bg = Inr parts"
    and ne: "data \<noteq> []"
    and co: "complete (categorical_feature_names self) (numerical_feature_names self) data"
    and d: "0 \<le> num_value (min_impurity_decrease (options self))"
    and mem: "(x, v) \<in> set parts"
  shows "x \<noteq> []"
proof -
  from select_best_Some [OF sb] have
    ig: "information_gain self data name = Inr bg"
    and "\<exists>s d. score bg = Some s \<and> min_impurity_decrease (options self) = PyFloat d \<and> d < s"
    by simp_all
  then obtain s d0 where s: "score bg = Some s"
    and d0: "min_impurity_decrease (options self) = PyFloat d0" and ds: "d0 < s" by blast
  from d d0 ds have spos: "0 < s" by (simp add: num_value_def)
  show ?thesis
  proof (cases "name \<in> set (categorical_feature_names self)")
    case True
    with sp mem obtain p where p: "p \<in> set data" and v: "v = CatValue (cat_val (fst p) name)"
      and x: "x = filter (\<lambda>q. cat_eq (cat_val (fst q) name) (cat_val (fst p) name)) data"
      by (auto simp: split_def categorical_split_def column_values_def)
    from co p True have "cat_val (fst p) name \<noteq> None"
      by (auto simp: complete_def list_all_iff)
    then have "cat_eq (cat_val (fst p) name) (cat_val (fst p) name)"
      by (auto simp: cat_eq_def)
    with p x show ?thesis by (auto simp: filter_empty_conv)
  next
    case False
    show ?thesis
    proof (cases "name \<in> set (numerical_feature_names self)")
      case num: True
      from ig False num obtain g bt where
        ng: "numerical_information_gain self data name = Inr (g, bt)" and bg: "bg = Pair g bt"
        by (cases "numerical_information_gain self data name") (auto simp: information_gain_def)
      from s bg spos have gpos: "0 < g" by (simp add: score_def)
      have "bt \<noteq> None"
      proof
        assume "bt = None"
        with numerical_gain_None [OF ne] ng have "g = 0" by simp
        with gpos show False by simp
      qed
      then obtain t where bt: "bt = Some t" by (cases bt) simp_all
      from sp False num bg bt have parts: "parts = numerical_split data name (Some t)"
        by (simp add: split_def)
      from numerical_gain_Some [OF ne ng [unfolded bt]]
      have pos: "spec_threshold_gain self data name t \<noteq> 0" by simp
      have "\<forall>p \<in> set data. num_val (fst p) name \<noteq> None"
        using co num by (auto simp: complete_def list_all_iff)
      with one_sided_gain [of name t data self] pos
      have "filter (\<lambda>p. is_less name t (fst p)) data \<noteq> []
          \<and> filter (\<lambda>p. is_more name t (fst p)) data \<noteq> []" by blast
      with mem parts show ?thesis by (auto simp: numerical_split_def below_def not_below_def)
    next
      case neither: False
      with ig False s show ?thesis by (simp add: information_gain_def score_def)
    qed
  qed
qed

lemma generate_node_nonempty:
  assumes "generate_node k self data fv available sc = Inr (node, sc')"
    and "data \<noteq> []"
    and "complete (categorical_feature_names self) (numerical_feature_names self) data"
    and "0 \<le> num_value (min_impurity_decrease (options self))"
  shows "\<forall>n \<in> set (nodes node). 1 \<le> samples n"
  using assms(1,2,3)
proof (induction k arbitrary: data fv available sc node sc')
  case 0
  then show ?case by (simp add: generate_node_zero)
next
  case (Suc k)
  from Suc.prems(2) have len: "1 \<le> length data" by (cases data) simp_all
  from Suc.prems(1) show ?case
  proof (cases rule: generate_node_cases)
    case (leaf bg bf)
    with len show ?thesis by simp
  next
    case (small bg name)
    with len show ?thesis by simp
  next
    case (inner bg name parts children)
    have "\<forall>c \<in> set children. \<forall>n \<in> set (nodes c). 1 \<le> samples n"
    proof (rule build_children_all [OF _ inner(5)])
      fix x v sc0 child sc1
      assume mem: "(x, v) \<in> set parts"
        and run: "generate_node k self x (Some v) (fst (unlock name (after_removal self name available) sc)) sc0
          = Inr (child, sc1)"
      have ne: "x \<noteq> []"
        by (rule split_parts_nonempty [OF inner(1,4) Suc.prems(2,3) assms(4) mem])
      have co: "complete (categorical_feature_names self) (numerical_feature_names self) x"
        by (rule complete_subset [OF Suc.prems(3) split_parts_subset [OF inner(4) mem]])
      from Suc.IH [OF run ne co] show "\<forall>n \<in> set (nodes child). 1 \<le> samples n" .
    qed
    with inner(6) len show ?thesis by auto
  qed
qed

text \<open>
  C10, as amended. When \<^verbatim>\<open>min_impurity_decrease\<close> is not negative, the training data is
  not empty and no cell of a categorical or numerical feature column is missing, every
  node of the tree that \<^verbatim>\<open>fit\<close> returns has at least one sample: a categorical split makes
  a branch for each observed value, and a numerical threshold with an empty side has gain 0
  and is never the winning threshold.
\<close>

theorem no_empty_node_without_missing_values:
  assumes "fit fuel cfg columns data categorical numerical special_cases = Inr (tree, special_cases')"
    and "data \<noteq> []"
    and "0 \<le> num_value (min_impurity_decrease cfg)"
    and "complete categorical numerical data"
  shows "\<forall>n \<in> set (nodes tree). 1 \<le> samples n"
proof -
  let ?self = "make_self cfg columns data categorical numerical"
  from assms(1) obtain available where
    run: "generate_node fuel ?self data None available special_cases = Inr (tree, special_cases')"
    by (auto simp: fit_def Let_def split: sum.splits if_splits option.splits)
  have "complete (categorical_feature_names ?self) (numerical_feature_names ?self) data"
    and "0 \<le> num_value (min_impurity_decrease (options ?self))"
    using assms(3,4) by (simp_all add: make_self_def)
  from generate_node_nonempty [OF run assms(2) this] show ?thesis .
qed

theorem no_empty_node_without_missing_values_witness:
  "fit (Suc (Suc 0)) default_config [''a'', ''b'', ''f''] two_rows [''a'', ''b''] [''f'']
     (Some example_registry) = Inr (example_tree, Some [])
   \<and> two_rows \<noteq> [] \<and> 0 \<le> num_value (min_impurity_decrease default_config)
   \<and> complete [''a'', ''b''] [''f''] two_rows
   \<and> list_all (\<lambda>n. 1 \<le> samples n) (nodes example_tree)"
proof -
  have d: "0 \<le> num_value (min_impurity_decrease default_config)"
    by (simp add: default_config_def num_value_def)
  have c: "complete [''a'', ''b''] [''f''] two_rows"
    by (simp add: complete_def two_rows_def row_x_def row_y_def example_row_def)
  from no_empty_node_without_missing_values [OF example_fit two_rows_ne d c]
  have "list_all (\<lambda>n. 1 \<le> samples n) (nodes example_tree)"
    unfolding list_all_iff .
  with example_fit two_rows_ne d c show ?thesis by blast
qed

text \<open>
  C10 as stated fails on a missing categorical value: the set of the column's values holds
  the missing value, no row equals it, and its branch is built on the empty subset.
\<close>

theorem empty_node_counterexample:
  "0 \<le> num_value (min_impurity_decrease default_config) \<and> nan_rows \<noteq> []
   \<and> fit (Suc (Suc 0)) default_config [''a''] nan_rows [''a''] [] None = Inr (nan_tree, None)
   \<and> samples (childs nan_tree ! 1) = 0"
  using nan_fit by (simp add: default_config_def num_value_def nan_rows_def nan_tree_def)

section \<open>Eligibility along a path\<close>

lemma names_of_simps [simp]:
  "names_of [] = []"
  "names_of (FeatureName n # av) = n # names_of av"
  "names_of (NameList ns # av) = names_of av"
  by (simp_all add: names_of_def List.map_filter_simps)

lemma names_of_append [simp]: "names_of (av @ bv) = names_of av @ names_of bv"
  by (simp add: names_of_def List.map_filter_def)

lemma names_of_mem: "n \<in> set (names_of av) \<longleftrightarrow> FeatureName n \<in> set av"
proof (induction av)
  case Nil
  show ?case by simp
next
  case (Cons e av)
  then show ?case by (cases e) auto
qed

lemma names_of_remove1: "names_of (remove1 (FeatureName n) av) = remove1 n (names_of av)"
proof (induction av)
  case Nil
  show ?case by simp
next
  case (Cons e av)
  then show ?case by (cases e) auto
qed

lemma names_of_map [simp]: "names_of (map FeatureName columns) = columns"
  by (induction columns) simp_all

lemma one_values_of_simps [simp]:
  "one_values_of [] = []"
  "one_values_of ((k, One n) # reg) = n # one_values_of reg"
  "one_values_of ((k, Many ns) # reg) = one_values_of reg"
  by (simp_all add: one_values_of_def List.map_filter_simps)

lemma one_values_of_mem: "n \<in> set (one_values_of reg) \<longleftrightarrow> (\<exists>k. (k, One n) \<in> set reg)"
proof (induction reg)
  case Nil
  show ?case by simp
next
  case (Cons kv reg)
  obtain k d where kv: "kv = (k, d)" by (cases kv)
  with Cons show ?case by (cases d) auto
qed

lemma one_values_of_filter_subset: "set (one_values_of (filter P reg)) \<subseteq> set (one_values_of reg)"
  by (auto simp: one_values_of_mem)

lemma one_values_of_filter_distinct:
  "distinct (one_values_of reg) \<Longrightarrow> distinct (one_values_of (filter P reg))"
proof (induction reg)
  case Nil
  show ?case by simp
next
  case (Cons kv reg)
  obtain k d where kv: "kv = (k, d)" by (cases kv)
  with Cons one_values_of_filter_subset [of P reg] show ?case by (cases d) auto
qed

lemma one_values_of_popped:
  "distinct (one_values_of reg) \<Longrightarrow> (k, One g) \<in> set reg
   \<Longrightarrow> g \<notin> set (one_values_of (filter (\<lambda>kv. fst kv \<noteq> k) reg))"
proof (induction reg)
  case Nil
  then show ?case by simp
next
  case (Cons kv reg)
  obtain k' d where kv: "kv = (k', d)" by (cases kv)
  show ?case
  proof (cases "kv = (k, One g)")
    case True
    with Cons.prems(1) have "g \<notin> set (one_values_of reg)" by simp
    with True one_values_of_filter_subset [of "\<lambda>kv. fst kv \<noteq> k" reg] show ?thesis by auto
  next
    case False
    with Cons.prems(2) have mem: "(k, One g) \<in> set reg" by simp
    then have g: "g \<in> set (one_values_of reg)" by (auto simp: one_values_of_mem)
    from Cons.prems(1) kv have "distinct (one_values_of reg)" by (cases d) simp_all
    from Cons.IH [OF this mem] have IH: "g \<notin> set (one_values_of (filter (\<lambda>kv. fst kv \<noteq> k) reg))" .
    show ?thesis
    proof (cases d)
      case (One g')
      with Cons.prems(1) kv g have "g' \<noteq> g" by auto
      with IH kv One show ?thesis by simp
    next
      case (Many ns)
      with IH kv show ?thesis by simp
    qed
  qed
qed

lemma eligibility_inv_pop_all:
  "eligibility_inv av sc \<Longrightarrow> eligibility_inv av (pop_all A sc)"
  using one_values_of_filter_subset
  by (cases sc) (fastforce simp: eligibility_inv_def pop_all_def one_values_def
        one_values_of_filter_distinct)+

lemma one_values_pop_all: "set (one_values (pop_all A sc)) \<subseteq> set (one_values sc)"
  using one_values_of_filter_subset by (cases sc) (auto simp: pop_all_def one_values_def)

lemma eligibility_inv_None: "eligibility_inv av sc \<Longrightarrow> eligibility_inv av None"
  by (simp add: eligibility_inv_def one_values_def)

lemma unlock_inv:
  assumes inv: "eligibility_inv av sc" and mem: "name \<in> set (names_of av)"
    and res: "unlock name (after_removal self name av) sc = (av2, sc2)"
  shows "eligibility_inv av2 sc2"
    and "set (names_of av2) \<union> set (one_values sc2) \<subseteq> set (names_of av) \<union> set (one_values sc)"
    and "name \<in> set (categorical_feature_names self)
         \<Longrightarrow> name \<notin> set (names_of av2) \<union> set (one_values sc2)"
proof -
  let ?av1 = "after_removal self name av"
  from inv have d: "distinct (names_of av)" and dv: "distinct (one_values sc)"
    and dj: "set (names_of av) \<inter> set (one_values sc) = {}"
    by (simp_all add: eligibility_inv_def)
  have d1: "distinct (names_of ?av1)" and s1: "set (names_of ?av1) \<subseteq> set (names_of av)"
    and c1: "name \<in> set (categorical_feature_names self) \<Longrightarrow> name \<notin> set (names_of ?av1)"
    using d by (auto simp: after_removal_def names_of_remove1 dest: notin_set_remove1)
  from mem dj have nv: "name \<notin> set (one_values sc)" by auto
  have sc2: "sc2 = pop_all {name} sc" using res unlock_registry [of name ?av1 sc] by simp
  have v2: "set (one_values sc2) \<subseteq> set (one_values sc)" unfolding sc2 by (rule one_values_pop_all)
  have dv2: "distinct (one_values sc2)"
    using eligibility_inv_pop_all [OF inv, of "{name}"] sc2 by (simp add: eligibility_inv_def)
  consider (same) "av2 = ?av1"
    | (one) reg g where "sc = Some reg" "(name, One g) \<in> set reg" "av2 = ?av1 @ [FeatureName g]"
    | (many) ns where "av2 = ?av1 @ [NameList ns]"
  proof -
    show thesis
    proof (cases sc)
      case None
      with res same show ?thesis by (simp add: unlock_def)
    next
      case (Some reg)
      show ?thesis
      proof (cases "reg \<noteq> [] \<and> map_of reg name \<noteq> None")
        case False
        with res Some same show ?thesis by (auto simp: unlock_def split: if_splits)
      next
        case True
        then obtain dd where m: "map_of reg name = Some dd" by auto
        then have inreg: "(name, dd) \<in> set reg" by (rule map_of_SomeD)
        from res Some True m have av2: "av2 = ?av1 @ [entry_of dd]" by (auto simp: unlock_def)
        show ?thesis
        proof (cases dd)
          case (One g)
          with av2 inreg Some one show ?thesis by (simp add: entry_of_def)
        next
          case (Many ns)
          with av2 many show ?thesis by (simp add: entry_of_def)
        qed
      qed
    qed
  qed
  then have "eligibility_inv av2 sc2
    \<and> set (names_of av2) \<union> set (one_values sc2) \<subseteq> set (names_of av) \<union> set (one_values sc)
    \<and> (name \<in> set (categorical_feature_names self)
         \<longrightarrow> name \<notin> set (names_of av2) \<union> set (one_values sc2))"
  proof cases
    case same
    with d1 s1 c1 dv2 v2 dj nv show ?thesis
      by (auto simp: eligibility_inv_def)
  next
    case (one reg g)
    from one(1,2) have gv: "g \<in> set (one_values sc)"
      by (auto simp: one_values_def one_values_of_mem)
    with dj have gn: "g \<notin> set (names_of av)" by auto
    from mem gn have neq: "g \<noteq> name" by auto
    from dv one(1,2) have "g \<notin> set (one_values sc2)"
      unfolding sc2 by (simp add: pop_all_def one_values_def one_values_of_popped)
    with one(3) d1 s1 c1 dv2 v2 dj nv gv gn neq show ?thesis
      by (auto simp: eligibility_inv_def)
  next
    case (many ns)
    with d1 s1 c1 dv2 v2 dj nv show ?thesis
      by (auto simp: eligibility_inv_def)
  qed
  then show "eligibility_inv av2 sc2"
    and "set (names_of av2) \<union> set (one_values sc2) \<subseteq> set (names_of av) \<union> set (one_values sc)"
    and "name \<in> set (categorical_feature_names self)
         \<Longrightarrow> name \<notin> set (names_of av2) \<union> set (one_values sc2)"
    by blast+
qed


lemma paths_within_mono: "paths_within V cats node \<Longrightarrow> V \<subseteq> U \<Longrightarrow> paths_within U cats node"
  by (auto simp: paths_within_def)

lemma paths_within_childless:
  assumes "\<And>n. sf = Some n \<Longrightarrow> n \<in> U"
  shows "paths_within U cats (Node sf fv m d l [])"
  using assms by (auto simp: paths_within_def)

lemma paths_within_Node:
  assumes ch: "\<forall>c \<in> set cs. paths_within V cats c" and sub: "V \<subseteq> U"
    and top: "name \<in> U" and fresh: "name \<in> set cats \<Longrightarrow> name \<notin> V"
  shows "paths_within U cats (Node (Some name) fv m d l cs)"
proof (cases "cs = []")
  case True
  with top show ?thesis by (auto intro!: paths_within_childless)
next
  case False
  have "(\<forall>n. Some n \<in> set p \<longrightarrow> n \<in> U) \<and> (\<forall>n \<in> set cats. count_list p (Some n) \<le> 1)"
    if p: "p \<in> set (split_paths (Node (Some name) fv m d l cs))" for p
  proof -
    from p False obtain c q where c: "c \<in> set cs" and q: "q \<in> set (split_paths c)"
      and pq: "p = Some name # q" by auto
    from ch c q have qU: "\<forall>n. Some n \<in> set q \<longrightarrow> n \<in> V"
      and qc: "\<forall>n \<in> set cats. count_list q (Some n) \<le> 1"
      by (auto simp: paths_within_def)
    have "count_list p (Some n) \<le> 1" if n: "n \<in> set cats" for n
    proof (cases "n = name")
      case True
      with fresh n qU have "Some name \<notin> set q" by auto
      then have "count_list q (Some name) = 0" by (simp add: count_list_0_iff)
      with True pq show ?thesis by simp
    next
      case False
      with pq qc n show ?thesis by simp
    qed
    with qU sub top pq show ?thesis by auto
  qed
  then show ?thesis unfolding paths_within_def by blast
qed

lemma build_children_paths:
  assumes gen: "\<And>x v sc child sc1. generate_node k self x (Some v) av sc = Inr (child, sc1)
      \<Longrightarrow> eligibility_inv av sc
      \<Longrightarrow> paths_within (set (names_of av) \<union> set (one_values sc)) cats child"
    and run: "build_children k self parts av sc = Inr (children, sc')"
    and inv: "eligibility_inv av sc"
  shows "\<forall>c \<in> set children. paths_within (set (names_of av) \<union> set (one_values sc)) cats c"
  using run inv
proof (induction parts arbitrary: sc children)
  case Nil
  then show ?case by (simp add: build_children_Nil)
next
  case (Cons p parts)
  obtain x v where p: "p = (x, v)" by (cases p)
  let ?U = "set (names_of av) \<union> set (one_values sc)"
  from Cons.prems(1) [unfolded p] show ?case
  proof (cases rule: build_children_Cons_cases)
    case (1 child sc1 rest)
    let ?s0 = "if truthy sc then sc else None"
    let ?s1 = "if truthy sc then sc1 else sc"
    have inv0: "eligibility_inv av ?s0"
      using Cons.prems(2) by (simp add: eligibility_inv_None)
    have sub0: "set (one_values ?s0) \<subseteq> set (one_values sc)" by (simp add: one_values_def)
    from gen [OF 1(1) inv0] have "paths_within (set (names_of av) \<union> set (one_values ?s0)) cats child" .
    then have child: "paths_within ?U cats child"
      by (rule paths_within_mono) (use sub0 in auto)
    have s1: "?s1 = pop_all (if truthy sc then set (chosen_features child) else {}) sc"
      using generate_node_registry [OF 1(1)] by simp
    have inv1: "eligibility_inv av ?s1"
      unfolding s1 by (rule eligibility_inv_pop_all [OF Cons.prems(2)])
    have sub1: "set (one_values ?s1) \<subseteq> set (one_values sc)"
      unfolding s1 by (rule one_values_pop_all)
    from Cons.IH [OF 1(2) inv1]
    have "\<forall>c \<in> set rest. paths_within (set (names_of av) \<union> set (one_values ?s1)) cats c" .
    then have "\<forall>c \<in> set rest. paths_within ?U cats c"
      using sub1 paths_within_mono [where U = ?U] by (metis Un_mono subset_refl)
    with child 1(3) show ?thesis by simp
  qed
qed

lemma generate_node_paths:
  assumes "generate_node k self data fv av sc = Inr (node, sc')" and "eligibility_inv av sc"
  shows "paths_within (set (names_of av) \<union> set (one_values sc)) (categorical_feature_names self) node"
  using assms
proof (induction k arbitrary: data fv av sc node sc')
  case 0
  then show ?case by (simp add: generate_node_zero)
next
  case (Suc k)
  let ?U = "set (names_of av) \<union> set (one_values sc)"
  from Suc.prems(1) show ?case
  proof (cases rule: generate_node_cases)
    case (leaf bg bf)
    have "n \<in> ?U" if "bf = Some n" for n
      using select_best_Some [OF leaf(1) [unfolded that]] by (simp add: names_of_mem)
    with leaf(3) show ?thesis by (auto intro!: paths_within_childless)
  next
    case (small bg name)
    have "name \<in> ?U" using select_best_Some [OF small(1)] by (simp add: names_of_mem)
    with small(4) show ?thesis by (auto intro!: paths_within_childless)
  next
    case (inner bg name parts children)
    have mem: "name \<in> set (names_of av)"
      using select_best_Some [OF inner(1)] by (simp add: names_of_mem)
    obtain av2 sc2 where ul: "unlock name (after_removal self name av) sc = (av2, sc2)"
      by (cases "unlock name (after_removal self name av) sc")
    note u = unlock_inv [OF Suc.prems(2) mem ul]
    from inner(5) ul have run: "build_children k self parts av2 sc2 = Inr (children, sc')" by simp
    have "\<forall>c \<in> set children. paths_within (set (names_of av2) \<union> set (one_values sc2))
        (categorical_feature_names self) c"
      by (rule build_children_paths [OF _ run u(1)]) (rule Suc.IH)
    from paths_within_Node [OF this u(2) _ u(3)] mem inner(6) show ?thesis by simp
  qed
qed

section \<open>The eligible list that fit starts from\<close>

lemma remove_names_inv:
  "remove_names ns av = Inr av' \<Longrightarrow> distinct (names_of av)
   \<Longrightarrow> distinct (names_of av') \<and> set (names_of av') \<subseteq> set (names_of av)"
proof (induction ns arbitrary: av)
  case Nil
  then show ?case by simp
next
  case (Cons n ns)
  from Cons.prems(1) obtain av1 where r: "py_remove (FeatureName n) av = Inr av1"
    and rest: "remove_names ns av1 = Inr av'"
    by (auto split: sum.splits)
  from r have av1: "names_of av1 = remove1 n (names_of av)"
    by (auto simp: py_remove_def names_of_remove1 split: if_splits)
  with Cons.prems(2) have "distinct (names_of av1)" by simp
  from Cons.IH [OF rest this] av1 set_remove1_subset [of n "names_of av"] show ?case
    by auto
qed

lemma remove_dependents_inv:
  "remove_dependents reg av = Inr av' \<Longrightarrow> distinct (names_of av)
   \<Longrightarrow> distinct (names_of av') \<and> set (names_of av') \<subseteq> set (names_of av)
       \<and> distinct (one_values_of reg) \<and> set (one_values_of reg) \<subseteq> set (names_of av)
       \<and> set (names_of av') \<inter> set (one_values_of reg) = {}"
proof (induction reg av rule: remove_dependents.induct)
  case (1 available)
  then show ?case by simp
next
  case (2 key n rest available)
  from "2.prems"(1) obtain av1 where r: "py_remove (FeatureName n) available = Inr av1"
    and run: "remove_dependents rest av1 = Inr av'"
    by (auto split: sum.splits)
  from r have mem: "n \<in> set (names_of available)"
    and av1: "names_of av1 = remove1 n (names_of available)"
    by (auto simp: py_remove_def names_of_remove1 names_of_mem split: if_splits)
  from av1 "2.prems"(2) have d1: "distinct (names_of av1)" and n1: "n \<notin> set (names_of av1)"
    and s1: "set (names_of av1) \<subseteq> set (names_of available)"
    by (auto dest: notin_set_remove1)
  from "2.IH" [OF r run d1] n1 s1 mem show ?case by auto
next
  case (3 key names rest available)
  from "3.prems"(1) obtain av1 where r: "remove_names names available = Inr av1"
    and run: "remove_dependents rest av1 = Inr av'"
    by (auto split: sum.splits)
  from remove_names_inv [OF r "3.prems"(2)] have d1: "distinct (names_of av1)"
    and s1: "set (names_of av1) \<subseteq> set (names_of available)" by simp_all
  from "3.IH" [OF r run d1] s1 show ?case by auto
qed

lemma make_self_fields:
  "options (make_self cfg columns data categorical numerical) = cfg"
  "feature_names (make_self cfg columns data categorical numerical) = columns"
  "class_names (make_self cfg columns data categorical numerical) = sort (remdups (map snd data))"
  "categorical_feature_names (make_self cfg columns data categorical numerical) = categorical"
  "numerical_feature_names (make_self cfg columns data categorical numerical) = numerical"
  by (simp_all add: make_self_def)

lemma fit_run:
  "fit fuel cfg columns data categorical numerical special_cases =
     (case (case special_cases of
              None \<Rightarrow> Inr (map FeatureName columns)
            | Some reg \<Rightarrow> if reg \<noteq> [] then remove_dependents reg (map FeatureName columns)
                          else Inr (map FeatureName columns)) of
        Inl e \<Rightarrow> Inl e
      | Inr available \<Rightarrow>
          generate_node fuel (make_self cfg columns data categorical numerical) data None available
            special_cases)"
  by (cases special_cases) (auto simp: fit_def Let_def make_self_fields split: sum.splits)

text \<open>
  C7. In the tree that \<^verbatim>\<open>fit\<close> returns for a table with distinct column names, no
  categorical feature is the split feature of two nodes of one path from the root to a
  leaf: the feature leaves the eligible list of the node that chose it, and nothing below
  that node can bring it back.
\<close>

theorem categorical_feature_once_per_path:
  assumes "fit fuel cfg columns data categorical numerical special_cases = Inr (tree, special_cases')"
    and "distinct columns"
  shows "\<forall>p \<in> set (split_paths tree). \<forall>name \<in> set categorical. count_list p (Some name) \<le> 1"
proof -
  let ?self = "make_self cfg columns data categorical numerical"
  let ?all = "map FeatureName columns"
  define first where "first = (case special_cases of None \<Rightarrow> Inr ?all
             | Some reg \<Rightarrow> if reg \<noteq> [] then remove_dependents reg ?all else Inr ?all)"
  from assms(1) have "(case first of Inl e \<Rightarrow> Inl e
      | Inr available \<Rightarrow> generate_node fuel ?self data None available special_cases)
      = Inr (tree, special_cases')"
    by (simp add: fit_run first_def)
  then obtain available where first: "first = Inr available"
    and run: "generate_node fuel ?self data None available special_cases = Inr (tree, special_cases')"
    by (cases first) simp_all
  note start = first [unfolded first_def]
  have inv: "eligibility_inv available special_cases"
  proof (cases special_cases)
    case None
    with start assms(2) show ?thesis by (auto simp: eligibility_inv_def one_values_def)
  next
    case (Some reg)
    show ?thesis
    proof (cases "reg = []")
      case True
      with start Some assms(2) show ?thesis by (auto simp: eligibility_inv_def one_values_def)
    next
      case False
      with start Some have "remove_dependents reg ?all = Inr available" by simp
      from remove_dependents_inv [OF this] assms(2) Some show ?thesis
        by (simp add: eligibility_inv_def one_values_def)
    qed
  qed
  from generate_node_paths [OF run inv] show ?thesis
    by (simp add: paths_within_def make_self_fields)
qed

theorem categorical_feature_once_per_path_witness:
  "fit (Suc (Suc 0)) default_config [''a'', ''b'', ''f''] two_rows [''a'', ''b''] [''f'']
     (Some example_registry) = Inr (example_tree, Some [])
   \<and> distinct [''a'', ''b'', ''f'']
   \<and> list_all (\<lambda>p. list_all (\<lambda>name. count_list p (Some name) \<le> 1) [''a'', ''b''])
         (split_paths example_tree)"
proof -
  have d: "distinct [''a'', ''b'', ''f'']" by simp
  from categorical_feature_once_per_path [OF example_fit d]
  have "list_all (\<lambda>p. list_all (\<lambda>name. count_list p (Some name) \<le> 1) [''a'', ''b''])
         (split_paths example_tree)"
    unfolding list_all_iff .
  with example_fit d show ?thesis by blast
qed

section \<open>Enough fuel\<close>

text \<open>
  The recursion of the node builder ends. A categorical split shortens the eligible list or
  the registry; a numerical split with a threshold has a positive gain, so both of its
  subsets are smaller, and one without a threshold has two empty subsets. With more fuel than rows, columns and twice the pairs of the registry,
  \<^verbatim>\<open>fit\<close> returns a tree or raises an error of its own; it never runs out of fuel.
\<close>

lemma cat_gain_loop_fuel: "cat_gain_loop data name cs b \<noteq> Inl OutOfFuel"
  by (induction cs arbitrary: b) (simp_all add: categorical_feature_entropy_spec)

lemma num_gain_loop_fuel: "num_gain_loop data name t cs b \<noteq> Inl OutOfFuel"
  by (induction cs arbitrary: b) (simp_all add: numerical_feature_entropy_spec)

lemma threshold_gain_fuel: "threshold_gain self data name t \<noteq> Inl OutOfFuel"
  using num_gain_loop_fuel [of data name t "class_names self" "Finite 0"]
  by (cases "num_gain_loop data name t (class_names self) (Finite 0)")
     (auto simp: threshold_gain_def numerical_feature_entropy_spec)

lemma threshold_loop_fuel: "threshold_loop self data name ts best \<noteq> Inl OutOfFuel"
proof (induction ts arbitrary: best)
  case Nil
  show ?case by simp
next
  case (Cons t ts)
  obtain g b where best: "best = (g, b)" by (cases best)
  show ?case
    using threshold_gain_fuel [of self data name t] Cons.IH
    by (cases "threshold_gain self data name t") (auto simp: best)
qed

lemma information_gain_fuel: "information_gain self data name \<noteq> Inl OutOfFuel"
proof -
  have c: "categorical_information_gain self data name \<noteq> Inl OutOfFuel"
    using cat_gain_loop_fuel [of data name "class_names self" "Finite 0"]
    by (cases "cat_gain_loop data name (class_names self) (Finite 0)")
       (auto simp: categorical_information_gain_def categorical_feature_entropy_spec)
  have n: "numerical_information_gain self data name \<noteq> Inl OutOfFuel"
    using threshold_loop_fuel [of self data name _ "(0, None)"]
    by (cases "column_max (map fst data) name")
       (auto simp: numerical_information_gain_def thresholds_def)
  show ?thesis
    using c n
    by (cases "categorical_information_gain self data name";
        cases "numerical_information_gain self data name")
       (auto simp: information_gain_def)
qed

lemma best_loop_fuel: "best_loop self data av best \<noteq> Inl OutOfFuel"
proof (induction av arbitrary: best)
  case Nil
  show ?case by simp
next
  case (Cons e av)
  obtain g f where best: "best = (g, f)" by (cases best)
  show ?case
  proof (cases e)
    case (NameList ns)
    then show ?thesis by (simp add: best)
  next
    case (FeatureName name)
    then show ?thesis
      using information_gain_fuel [of self data name] Cons.IH
      by (cases "information_gain self data name") (auto simp: best)
  qed
qed

lemma select_best_fuel: "select_best self data av \<noteq> Inl OutOfFuel"
  by (simp add: select_best_def best_loop_fuel)

lemma split_fuel: "split self data name bg \<noteq> Inl OutOfFuel"
  by (auto simp: split_def split: gain.splits)


lemma reg_size_pop_all: "reg_size (pop_all A sc) \<le> reg_size sc"
  by (cases sc) (simp_all add: reg_size_def pop_all_def)

lemma filter_present_key:
  assumes "map_of reg k = Some d"
  shows "length (filter (\<lambda>kv. fst kv \<noteq> k) reg) < length reg"
proof -
  from assms have "(k, d) \<in> set reg" by (rule map_of_SomeD)
  then show ?thesis by (rule length_filter_less) simp
qed

lemma unlock_measure:
  assumes "unlock name av1 sc = (av2, sc2)"
  shows "length av2 + 2 * reg_size sc2 \<le> length av1 + 2 * reg_size sc"
proof (cases sc)
  case None
  with assms show ?thesis by (simp add: unlock_def)
next
  case (Some reg)
  show ?thesis
  proof (cases "reg \<noteq> [] \<and> map_of reg name \<noteq> None")
    case False
    with assms Some show ?thesis by (auto simp: unlock_def split: if_splits)
  next
    case True
    then obtain d where m: "map_of reg name = Some d" by auto
    from filter_present_key [OF m] assms Some True m show ?thesis
      by (auto simp: unlock_def reg_size_def)
  qed
qed

lemma all_less_entropy:
  assumes "\<forall>r \<in> set X. is_less name t r"
  shows "spec_numerical_entropy X name t = 0"
proof -
  from assms have "filter (is_less name t) X = X" by simp
  moreover from assms have "filter (is_more name t) X = []"
    by (auto simp: filter_empty_conv is_less_def is_more_def split: option.splits)
  ultimately show ?thesis by (simp add: spec_numerical_entropy_def Let_def)
qed

lemma all_more_entropy:
  assumes "\<forall>r \<in> set X. is_more name t r"
  shows "spec_numerical_entropy X name t = 0"
proof -
  from assms have "filter (is_more name t) X = X" by simp
  moreover from assms have "filter (is_less name t) X = []"
    by (auto simp: filter_empty_conv is_less_def is_more_def split: option.splits)
  ultimately show ?thesis by (simp add: spec_numerical_entropy_def Let_def)
qed

lemma undivided_gain:
  assumes "(\<forall>p \<in> set data. is_less name t (fst p)) \<or> (\<forall>p \<in> set data. is_more name t (fst p))"
  shows "spec_threshold_gain self data name t = 0"
proof -
  have ent: "spec_numerical_entropy X name t = 0" if "set X \<subseteq> fst ` set data" for X
    using assms that all_less_entropy [of X name t] all_more_entropy [of X name t] by blast
  have whole: "spec_numerical_entropy (map fst data) name t = 0"
    by (rule ent) simp
  have part: "spec_numerical_entropy (rows_with_label data c) name t = 0" for c
    by (rule ent) (auto simp: rows_with_label_def)
  show ?thesis by (simp add: spec_threshold_gain_def whole part)
qed

lemma numerical_gain_empty: "numerical_information_gain self [] name = Inl ValueError"
  by (simp add: numerical_information_gain_def thresholds_def column_max_def List.map_filter_simps)

lemma split_parts_measure:
  assumes sb: "select_best self data av = Inr (bg, Some name)"
    and sp: "split self data name bg = Inr parts"
    and mem: "(x, v) \<in> set parts"
    and ul: "unlock name (after_removal self name av) sc = (av2, sc2)"
  shows "length x + length av2 + 2 * reg_size sc2 < length data + length av + 2 * reg_size sc"
proof -
  from select_best_Some [OF sb] have inav: "FeatureName name \<in> set av"
    and ig: "information_gain self data name = Inr bg" by simp_all
  note um = unlock_measure [OF ul]
  show ?thesis
  proof (cases "name \<in> set (categorical_feature_names self)")
    case True
    with inav have "length (after_removal self name av) < length av"
      by (simp add: after_removal_def length_remove1) (cases av; simp)
    moreover from split_parts_subset [OF sp mem] sp mem True have "length x \<le> length data"
      by (auto simp: split_def categorical_split_def)
    ultimately show ?thesis using um by linarith
  next
    case False
    then have av1: "after_removal self name av = av" by (simp add: after_removal_def)
    from sp False have num: "name \<in> set (numerical_feature_names self)"
      by (auto simp: split_def split: if_splits)
    from ig False num obtain g bt where
      ng: "numerical_information_gain self data name = Inr (g, bt)" and bg: "bg = Pair g bt"
      by (cases "numerical_information_gain self data name") (auto simp: information_gain_def)
    from ng have ne: "data \<noteq> []" using numerical_gain_empty [of self name] by auto
    from sp False num bg have parts: "parts = numerical_split data name bt"
      by (simp add: split_def)
    have "length x < length data"
    proof (cases bt)
      case None
      with mem parts have "x = []" by (auto simp: numerical_split_def below_def not_below_def)
      with ne show ?thesis by simp
    next
      case (Some t)
      from numerical_gain_Some [OF ne ng [unfolded Some]]
      have "spec_threshold_gain self data name t \<noteq> 0" by simp
      with undivided_gain [of data name t self]
      have "\<not> (\<forall>p \<in> set data. is_less name t (fst p))"
        and "\<not> (\<forall>p \<in> set data. is_more name t (fst p))"
        by blast+
      then have "length (filter (\<lambda>p. is_less name t (fst p)) data) < length data"
        and "length (filter (\<lambda>p. is_more name t (fst p)) data) < length data"
        by (auto intro: length_filter_less)
      with mem parts Some show ?thesis
        by (auto simp: numerical_split_def below_def not_below_def)
    qed
    with um av1 show ?thesis by simp
  qed
qed

lemma build_children_fuel:
  assumes gen: "\<And>x v s. (x, v) \<in> set parts \<Longrightarrow> reg_size s \<le> reg_size sc2
      \<Longrightarrow> generate_node k self x (Some v) av2 s \<noteq> Inl OutOfFuel"
    and le: "reg_size sc0 \<le> reg_size sc2"
  shows "build_children k self parts av2 sc0 \<noteq> Inl OutOfFuel"
  using gen le
proof (induction parts arbitrary: sc0)
  case Nil
  show ?case by (simp add: build_children_Nil)
next
  case (Cons p parts)
  obtain x v where p: "p = (x, v)" by (cases p)
  let ?s0 = "if truthy sc0 then sc0 else None"
  have "reg_size ?s0 \<le> reg_size sc2" using Cons.prems(2) by (simp add: reg_size_def)
  from Cons.prems(1) [OF _ this, of x v] p
  have child: "generate_node k self x (Some v) av2 ?s0 \<noteq> Inl OutOfFuel" by simp
  show ?case
  proof (cases "generate_node k self x (Some v) av2 ?s0")
    case (Inl e)
    with child show ?thesis by (simp add: p build_children_Cons)
  next
    case (Inr r)
    obtain c sc1 where r: "r = (c, sc1)" by (cases r)
    let ?s1 = "if truthy sc0 then sc1 else sc0"
    from generate_node_registry [OF Inr [unfolded r]]
    have "reg_size ?s1 \<le> reg_size sc0" by (auto simp: reg_size_pop_all)
    with Cons.prems(2) have "reg_size ?s1 \<le> reg_size sc2" by simp
    then have "build_children k self parts av2 ?s1 \<noteq> Inl OutOfFuel"
      by (intro Cons.IH) (use Cons.prems(1) in auto)
    with Inr r show ?thesis
      by (cases "build_children k self parts av2 ?s1") (auto simp: p build_children_Cons)
  qed
qed

lemma fuel_suffices:
  "length data + length av + 2 * reg_size sc < k
   \<Longrightarrow> generate_node k self data fv av sc \<noteq> Inl OutOfFuel"
proof (induction k arbitrary: data fv av sc)
  case 0
  then show ?case by simp
next
  case (Suc k)
  show ?case
  proof (cases "select_best self data av")
    case (Inl e)
    with select_best_fuel [of self data av] generate_node_error [OF Inl] show ?thesis by simp
  next
    case (Inr r)
    obtain bg bf where r: "r = (bg, bf)" by (cases r)
    note sb = Inr [unfolded r]
    show ?thesis
    proof (cases "bf = None \<or> bf = Some []")
      case True
      from generate_node_leaf [OF sb True] show ?thesis by simp
    next
      case False
      then obtain name where bf: "bf = Some name" and nm: "name \<noteq> []" by auto
      note sb' = sb [unfolded bf]
      show ?thesis
      proof (cases "min_samples_split (options self) \<le> int (length data)")
        case False
        from generate_node_small [OF sb' nm False] show ?thesis by simp
      next
        case True
        obtain av2 sc2 where ul: "unlock name (after_removal self name av) sc = (av2, sc2)"
          by (cases "unlock name (after_removal self name av) sc")
        show ?thesis
        proof (cases "split self data name bg")
          case (Inl e)
          with split_fuel [of self data name bg] show ?thesis
            by (simp add: generate_node_inner [OF sb' nm True])
        next
          case (Inr parts)
          have "build_children k self parts av2 sc2 \<noteq> Inl OutOfFuel"
          proof (rule build_children_fuel)
            fix x v s
            assume mem: "(x, v) \<in> set parts" and le: "reg_size s \<le> reg_size sc2"
            from split_parts_measure [OF sb' Inr mem ul] le Suc.prems
            have "length x + length av2 + 2 * reg_size s < k" by linarith
            then show "generate_node k self x (Some v) av2 s \<noteq> Inl OutOfFuel" by (rule Suc.IH)
          qed simp
          with Inr ul show ?thesis
            by (cases "build_children k self parts av2 sc2")
               (auto simp: generate_node_inner [OF sb' nm True])
        qed
      qed
    qed
  qed
qed

lemma py_remove_length: "py_remove x xs = Inr ys \<Longrightarrow> length ys \<le> length xs"
  by (auto simp: py_remove_def length_remove1 split: if_splits)

lemma remove_names_length: "remove_names ns av = Inr av' \<Longrightarrow> length av' \<le> length av"
proof (induction ns arbitrary: av)
  case Nil
  then show ?case by simp
next
  case (Cons n ns)
  from Cons.prems obtain av1 where r: "py_remove (FeatureName n) av = Inr av1"
    and rest: "remove_names ns av1 = Inr av'"
    by (auto split: sum.splits)
  from Cons.IH [OF rest] py_remove_length [OF r] show ?case by simp
qed

lemma remove_dependents_length: "remove_dependents reg av = Inr av' \<Longrightarrow> length av' \<le> length av"
proof (induction reg av rule: remove_dependents.induct)
  case (1 available)
  then show ?case by simp
next
  case (2 key n rest available)
  from "2.prems" obtain av1 where r: "py_remove (FeatureName n) available = Inr av1"
    and run: "remove_dependents rest av1 = Inr av'"
    by (auto split: sum.splits)
  from "2.IH" [OF r run] py_remove_length [OF r] show ?case by simp
next
  case (3 key names rest available)
  from "3.prems" obtain av1 where r: "remove_names names available = Inr av1"
    and run: "remove_dependents rest av1 = Inr av'"
    by (auto split: sum.splits)
  from "3.IH" [OF r run] remove_names_length [OF r] show ?case by simp
qed

lemma remove_names_fuel: "remove_names ns av \<noteq> Inl OutOfFuel"
  by (induction ns arbitrary: av) (auto simp: py_remove_def split: sum.splits)

lemma remove_dependents_fuel: "remove_dependents reg av \<noteq> Inl OutOfFuel"
  using remove_names_fuel
  by (induction reg av rule: remove_dependents.induct) (auto simp: py_remove_def split: sum.splits)

lemma fit_fuel_suffices:
  assumes "length data + length columns + 2 * reg_size special_cases < fuel"
  shows "fit fuel cfg columns data categorical numerical special_cases \<noteq> Inl OutOfFuel"
proof -
  let ?all = "map FeatureName columns"
  define first where "first = (case special_cases of None \<Rightarrow> Inr ?all
             | Some reg \<Rightarrow> if reg \<noteq> [] then remove_dependents reg ?all else Inr ?all)"
  have nf: "first \<noteq> Inl OutOfFuel"
    using remove_dependents_fuel by (auto simp: first_def split: option.splits)
  show ?thesis
  proof (cases first)
    case (Inl e)
    with nf show ?thesis by (simp add: fit_run first_def [symmetric])
  next
    case (Inr available)
    then have "length available \<le> length columns"
      using remove_dependents_length [of _ ?all available]
      by (auto simp: first_def split: option.splits if_splits)
    with assms have "length data + length available + 2 * reg_size special_cases < fuel" by simp
    from fuel_suffices [OF this] Inr show ?thesis by (simp add: fit_run first_def [symmetric])
  qed
qed


end
